theory Spec2Isabelle
  imports Complex_Main "HOL-Library.Multiset"
begin

section \<open>The analyze route of the NSE stealth accumulation scanner\<close>

text \<open>
  The repository has one piece of logic, the handler \<open>POST\<close> of the analyze route. It walks
  back from today over calendar days, downloads the bhavcopy of each weekday, keeps the
  \<open>EQ\<close> rows of up to five sessions, folds them oldest first into one accumulator per
  symbol, and ranks the accumulators by Chaikin money flow and liquidity.

  The embedding follows the handler statement by statement. Three things outside the
  repository are parameters of the model:
  \<^item> the built-in \<open>Number\<close> on strings, a function \<open>num\<close> from strings to numbers;
  \<^item> the weekday of today and, for every day before today, what the download of that
    day's archive does (the record \<open>env\<close>);
  \<^item> the libraries (fetch, JSZip, csv-parse), through the outcome each stage has.
\<close>

subsection \<open>Numbers\<close>

text \<open>
  A JavaScript number is a finite value, one of the two infinities, or NaN. Finite values
  are modelled as reals. A result of an operation on finite values that lies beyond the
  largest double, \<open>MAX_VALUE\<close>, is the infinity of its sign, as it is for doubles; the
  rounding of a result within that range and the sign of zero are left out. On the special
  values the operations follow IEEE 754.
\<close>

datatype jsnum = Fin real | PInf | NInf | NaN

definition MAX_VALUE :: real where
  \<comment> \<open>\<open>Number.MAX_VALUE\<close>, the largest double.\<close>
  "MAX_VALUE = 2 ^ 1024 - 2 ^ 971"

definition overflow :: "real \<Rightarrow> jsnum" where
  \<comment> \<open>The number an exact result becomes.\<close>
  "overflow r = (if MAX_VALUE < r then PInf else if r < - MAX_VALUE then NInf else Fin r)"

fun isFinite :: "jsnum \<Rightarrow> bool" where
  "isFinite (Fin x) = True"
| "isFinite PInf = False"
| "isFinite NInf = False"
| "isFinite NaN = False"

fun js_neg :: "jsnum \<Rightarrow> jsnum" where
  "js_neg (Fin x) = Fin (- x)"
| "js_neg PInf = NInf"
| "js_neg NInf = PInf"
| "js_neg NaN = NaN"

fun js_add :: "jsnum \<Rightarrow> jsnum \<Rightarrow> jsnum" where
  "js_add (Fin x) (Fin y) = overflow (x + y)"
| "js_add NaN y = NaN"
| "js_add x NaN = NaN"
| "js_add PInf NInf = NaN"
| "js_add NInf PInf = NaN"
| "js_add PInf y = PInf"
| "js_add x PInf = PInf"
| "js_add NInf y = NInf"
| "js_add x NInf = NInf"

definition js_sub :: "jsnum \<Rightarrow> jsnum \<Rightarrow> jsnum" where
  "js_sub x y = js_add x (js_neg y)"

definition inf_of_sign :: "real \<Rightarrow> jsnum" where
  \<comment> \<open>The infinity with the sign of \<open>s\<close>; NaN when \<open>s\<close> is zero.\<close>
  "inf_of_sign s = (if s = 0 then NaN else if 0 < s then PInf else NInf)"

fun js_mul :: "jsnum \<Rightarrow> jsnum \<Rightarrow> jsnum" where
  "js_mul (Fin x) (Fin y) = overflow (x * y)"
| "js_mul NaN y = NaN"
| "js_mul x NaN = NaN"
| "js_mul (Fin x) PInf = inf_of_sign x"
| "js_mul (Fin x) NInf = inf_of_sign (- x)"
| "js_mul PInf (Fin y) = inf_of_sign y"
| "js_mul NInf (Fin y) = inf_of_sign (- y)"
| "js_mul PInf PInf = PInf"
| "js_mul PInf NInf = NInf"
| "js_mul NInf PInf = NInf"
| "js_mul NInf NInf = PInf"

fun js_div :: "jsnum \<Rightarrow> jsnum \<Rightarrow> jsnum" where
  "js_div (Fin x) (Fin y) = (if y = 0 then inf_of_sign x else overflow (x / y))"
| "js_div NaN y = NaN"
| "js_div x NaN = NaN"
| "js_div (Fin x) PInf = Fin 0"
| "js_div (Fin x) NInf = Fin 0"
| "js_div PInf (Fin y) = (if 0 \<le> y then PInf else NInf)"
| "js_div NInf (Fin y) = (if 0 \<le> y then NInf else PInf)"
| "js_div PInf PInf = NaN"
| "js_div PInf NInf = NaN"
| "js_div NInf PInf = NaN"
| "js_div NInf NInf = NaN"

fun js_log10 :: "jsnum \<Rightarrow> jsnum" where
  "js_log10 (Fin x) = (if 0 < x then Fin (log 10 x) else if x = 0 then NInf else NaN)"
| "js_log10 PInf = PInf"
| "js_log10 NInf = NaN"
| "js_log10 NaN = NaN"

fun js_lt :: "jsnum \<Rightarrow> jsnum \<Rightarrow> bool" where
  "js_lt (Fin x) (Fin y) = (x < y)"
| "js_lt NaN y = False"
| "js_lt x NaN = False"
| "js_lt x NInf = False"
| "js_lt PInf y = False"
| "js_lt NInf y = True"
| "js_lt x PInf = True"

fun js_le :: "jsnum \<Rightarrow> jsnum \<Rightarrow> bool" where
  "js_le (Fin x) (Fin y) = (x \<le> y)"
| "js_le NaN y = False"
| "js_le x NaN = False"
| "js_le NInf y = True"
| "js_le x PInf = True"
| "js_le x NInf = False"
| "js_le PInf y = False"

definition js_gt :: "jsnum \<Rightarrow> jsnum \<Rightarrow> bool" where
  "js_gt x y = js_lt y x"

definition js_ge :: "jsnum \<Rightarrow> jsnum \<Rightarrow> bool" where
  "js_ge x y = js_le y x"

definition js_eq :: "jsnum \<Rightarrow> jsnum \<Rightarrow> bool" where
  \<comment> \<open>Strict equality \<open>===\<close> on numbers: NaN equals nothing.\<close>
  "js_eq x y = (x = y \<and> x \<noteq> NaN)"

definition truthy :: "jsnum \<Rightarrow> bool" where
  \<comment> \<open>A number in a boolean position: zero and NaN are falsy.\<close>
  "truthy x = (x \<noteq> Fin 0 \<and> x \<noteq> NaN)"

subsection \<open>Rows and \<open>safeNumber\<close>\<close>

text \<open>
  A parsed CSV record. The numeric columns are read through \<open>safeNumber\<close>, which tests
  for a missing value, so they are optional here.
\<close>

record Row =
  SYMBOL :: string
  SERIES :: string
  OPEN :: "string option"
  HIGH :: "string option"
  LOW :: "string option"
  CLOSE :: "string option"
  TOTTRDQTY :: "string option"
  TOTTRDVAL :: "string option"

definition safeNumber :: "(string \<Rightarrow> jsnum) \<Rightarrow> string option \<Rightarrow> jsnum" where
  "safeNumber num v =
     (case v of
        None \<Rightarrow> Fin 0
      | Some s \<Rightarrow>
          (let n = num (filter (\<lambda>c. c \<noteq> CHR '','') s)
           in if isFinite n then n else Fin 0))"

subsection \<open>Insertion-ordered maps\<close>

text \<open>
  A JavaScript \<open>Map\<close> iterates in insertion order, and \<open>set\<close> on a key that is present
  replaces the value where it stands. It is modelled as an association list.
\<close>

type_synonym ('k, 'v) Map = "('k \<times> 'v) list"

definition Map_get :: "('k, 'v) Map \<Rightarrow> 'k \<Rightarrow> 'v option" where
  "Map_get m k = map_of m k"

primrec Map_set :: "'k \<Rightarrow> 'v \<Rightarrow> ('k, 'v) Map \<Rightarrow> ('k, 'v) Map" where
  "Map_set k v [] = [(k, v)]"
| "Map_set k v (p # ps) = (if fst p = k then (k, v) # ps else p # Map_set k v ps)"

definition Map_values :: "('k, 'v) Map \<Rightarrow> 'v list" where
  "Map_values m = map snd m"

subsection \<open>The aggregator\<close>

record Aggregated =
  symbol :: string
  sumVolume :: jsnum
  sumTradedValue :: jsnum
  sumMFVolume :: jsnum
  firstClose :: "jsnum option"
  lastClose :: "jsnum option"
  days :: nat

definition new_Aggregated :: "string \<Rightarrow> Aggregated" where
  \<comment> \<open>The object literal used when the symbol has no accumulator yet.\<close>
  "new_Aggregated s =
     \<lparr>symbol = s, sumVolume = Fin 0, sumTradedValue = Fin 0, sumMFVolume = Fin 0,
      firstClose = None, lastClose = None, days = 0\<rparr>"

definition mfm :: "jsnum \<Rightarrow> jsnum \<Rightarrow> jsnum \<Rightarrow> jsnum" where
  \<comment> \<open>The money flow multiplier of a row, from its high, low and close.\<close>
  "mfm high low close =
     (let range = js_sub high low
      in if js_eq range (Fin 0) then Fin 0
         else js_div (js_sub (js_sub close low) (js_sub high close)) range)"

definition skipped :: "(string \<Rightarrow> jsnum) \<Rightarrow> Row \<Rightarrow> bool" where
  \<comment> \<open>The condition under which the aggregation loop steps over a row.\<close>
  "skipped num r =
     (js_le (safeNumber num (TOTTRDQTY r)) (Fin 0) \<or>
      js_le (safeNumber num (HIGH r)) (Fin 0) \<or>
      js_le (safeNumber num (LOW r)) (Fin 0))"

definition fold_row ::
  "(string \<Rightarrow> jsnum) \<Rightarrow> string \<Rightarrow> Row \<Rightarrow> (string, Aggregated) Map \<Rightarrow> (string, Aggregated) Map"
where
  \<comment> \<open>The body of the inner aggregation loop, for one entry of a day's map.\<close>
  "fold_row num symb r agg =
     (let high = safeNumber num (HIGH r);
          low = safeNumber num (LOW r);
          close = safeNumber num (CLOSE r);
          volume = safeNumber num (TOTTRDQTY r);
          tradedValue = safeNumber num (TOTTRDVAL r)
      in if js_le volume (Fin 0) \<or> js_le high (Fin 0) \<or> js_le low (Fin 0) then agg
         else
           let mfv = js_mul (mfm high low close) volume;
               a = (case Map_get agg symb of Some a \<Rightarrow> a | None \<Rightarrow> new_Aggregated symb);
               a1 = a\<lparr>sumVolume := js_add (sumVolume a) volume,
                      sumTradedValue := js_add (sumTradedValue a) tradedValue,
                      sumMFVolume := js_add (sumMFVolume a) mfv,
                      days := days a + 1\<rparr>;
               a2 = (if firstClose a1 = None then a1\<lparr>firstClose := Some close\<rparr> else a1);
               a3 = a2\<lparr>lastClose := Some close\<rparr>
           in Map_set symb a3 agg)"

definition fold_day ::
  "(string \<Rightarrow> jsnum) \<Rightarrow> (string, Row) Map \<Rightarrow> (string, Aggregated) Map \<Rightarrow> (string, Aggregated) Map"
where
  \<comment> \<open>The inner loop: the entries of one day's map, in insertion order.\<close>
  "fold_day num dayMap agg = fold (\<lambda>(symb, r). fold_row num symb r) dayMap agg"

definition aggregate ::
  "(string \<Rightarrow> jsnum) \<Rightarrow> (string, Row) Map list \<Rightarrow> (string, Aggregated) Map"
where
  \<comment> \<open>The outer loop over the days in the order given, starting from the empty map.\<close>
  "aggregate num chronological = fold (fold_day num) chronological []"

subsection \<open>Downloading one day\<close>

text \<open>
  The download of one archive goes through three library calls, and each can fail. The
  model keeps what each call can do and leaves out the bytes: a request is rejected or
  answered, an answer carries a status and a body, a body is a ZIP with its members or
  not a ZIP at all, and a member's text parses to records or does not.
\<close>

datatype csv_file = Malformed | Table "Row option list"

datatype zip_payload = NotAZip | Zip "csv_file list"

datatype http_result = Rejected | Response bool zip_payload

datatype error = FetchFailed | ZipLoadFailed | EmptyZIP | CsvParseFailed

definition fetchZipCsvBuffer :: "http_result \<Rightarrow> error + zip_payload option" where
  \<comment> \<open>\<open>fetch\<close> throws when the request is rejected; a response that is not ok gives null.\<close>
  "fetchZipCsvBuffer h =
     (case h of
        Rejected \<Rightarrow> Inl FetchFailed
      | Response ok body \<Rightarrow> if \<not> ok then Inr None else Inr (Some body))"

definition unzipFirstCsv :: "zip_payload \<Rightarrow> error + csv_file" where
  "unzipFirstCsv buf =
     (case buf of
        NotAZip \<Rightarrow> Inl ZipLoadFailed
      | Zip files \<Rightarrow> (case files of [] \<Rightarrow> Inl EmptyZIP | firstFile # rest \<Rightarrow> Inr firstFile))"

definition parse :: "csv_file \<Rightarrow> error + Row option list" where
  "parse csvText = (case csvText of Malformed \<Rightarrow> Inl CsvParseFailed | Table records \<Rightarrow> Inr records)"

fun collect_EQ :: "Row option list \<Rightarrow> (string, Row) Map \<Rightarrow> (string, Row) Map" where
  \<comment> \<open>The loop over the records: null records and other series are stepped over.\<close>
  "collect_EQ [] m = m"
| "collect_EQ (None # rs) m = collect_EQ rs m"
| "collect_EQ (Some r # rs) m =
     (if SERIES r \<noteq> ''EQ'' then collect_EQ rs m else collect_EQ rs (Map_set (SYMBOL r) r m))"

definition try_date :: "http_result \<Rightarrow> error + (string, Row) Map option" where
  \<comment> \<open>The body of the inner \<open>try\<close>: \<open>Inl\<close> is a throw, \<open>Inr None\<close> a day that pushes nothing.\<close>
  "try_date h =
     (case fetchZipCsvBuffer h of
        Inl e \<Rightarrow> Inl e
      | Inr None \<Rightarrow> Inr None
      | Inr (Some buf) \<Rightarrow>
          (case unzipFirstCsv buf of
             Inl e \<Rightarrow> Inl e
           | Inr csvText \<Rightarrow>
               (case parse csvText of
                  Inl e \<Rightarrow> Inl e
                | Inr records \<Rightarrow>
                    (let m = collect_EQ records []
                     in if 0 < length m then Inr (Some m) else Inr None))))"

subsection \<open>The walk back over the calendar\<close>

text \<open>
  \<open>today\<close> is the weekday of the current date as \<open>day()\<close> gives it (0 is Sunday, 6 is
  Saturday); \<open>archive k\<close> is what the request for the archive of the date \<open>k\<close> days before
  today does. The cursor is today minus \<open>k\<close> days after \<open>k\<close> iterations, and the difference in
  days between now and the cursor is taken to be \<open>k\<close>: the run lasts less than a day.
  \<open>buildArchiveUrl\<close> gives each date its own address, so the archive is indexed by the
  date and the text of the address is left out.
\<close>

record env =
  today :: nat
  archive :: "nat \<Rightarrow> http_result"

definition neededDays :: nat where
  "neededDays = 5"

definition maxLookback :: nat where
  "maxLookback = 12"

definition cursor_day :: "env \<Rightarrow> nat \<Rightarrow> nat" where
  \<comment> \<open>The weekday of the date \<open>k\<close> days before today: one day back is six days forward.\<close>
  "cursor_day e k = (today e + 6 * k) mod 7"

function locate :: "env \<Rightarrow> nat \<Rightarrow> (string, Row) Map list \<Rightarrow> (string, Row) Map list" where
  "locate e k dailyMaps =
     (if length dailyMaps < neededDays \<and> length dailyMaps + k \<le> neededDays + maxLookback
      then
        if cursor_day e (k + 1) \<in> {6, 0} then locate e (k + 1) dailyMaps
        else
          (case try_date (archive e (k + 1)) of
             Inl err \<Rightarrow> locate e (k + 1) dailyMaps
           | Inr None \<Rightarrow> locate e (k + 1) dailyMaps
           | Inr (Some m) \<Rightarrow> locate e (k + 1) (dailyMaps @ [m]))
      else dailyMaps)"
  by pat_completeness auto
termination
  by (relation "measure (\<lambda>(e, k, dailyMaps). neededDays + maxLookback + 1 - k)") auto

declare locate.simps [simp del]

subsection \<open>The ranker\<close>

record StockRow =
  symbol :: string
  cmf :: jsnum
  totalTradedValue :: jsnum
  totalVolume :: jsnum
  daysCount :: nat
  priceChange5dPercent :: jsnum

definition qualifies :: "nat \<Rightarrow> Aggregated \<Rightarrow> bool" where
  \<comment> \<open>The filter callback; \<open>n\<close> is the length of \<open>dailyMaps\<close>.\<close>
  "qualifies n a = (max 3 (min 5 n) \<le> days a)"

definition to_result :: "Aggregated \<Rightarrow> StockRow" where
  \<comment> \<open>The map callback.\<close>
  "to_result a =
     (let c = (if js_eq (sumVolume a) (Fin 0) then Fin 0
               else js_div (sumMFVolume a) (sumVolume a));
          p = (case firstClose a of
                 None \<Rightarrow> Fin 0
               | Some f \<Rightarrow>
                   (case lastClose a of
                      None \<Rightarrow> Fin 0
                    | Some l \<Rightarrow>
                        if truthy f \<and> truthy l \<and> js_gt f (Fin 0)
                        then js_mul (js_div (js_sub l f) f) (Fin 100)
                        else Fin 0))
      in \<lparr>symbol = Aggregated.symbol a, cmf = c, totalTradedValue = sumTradedValue a,
          totalVolume = sumVolume a, daysCount = days a, priceChange5dPercent = p\<rparr>)"

definition compareFn :: "StockRow \<Rightarrow> StockRow \<Rightarrow> jsnum" where
  \<comment> \<open>The comparator handed to \<open>sort\<close>.\<close>
  "compareFn x y =
     (let liqX = js_log10 (js_add (Fin 1) (totalTradedValue x));
          liqY = js_log10 (js_add (Fin 1) (totalTradedValue y));
          scoreX = js_mul (cmf x) (js_add (Fin 1) (js_mul (Fin 0.15) liqX));
          scoreY = js_mul (cmf y) (js_add (Fin 1) (js_mul (Fin 0.15) liqY))
      in js_sub scoreY scoreX)"

text \<open>
  \<open>Array.prototype.sort\<close> is stable, and for a comparator that orders its arguments
  consistently the language fixes the result; a stable insertion sort computes it, putting
  \<open>x\<close> after \<open>y\<close> when the comparator gives a number above zero for \<open>(x, y)\<close>. A comparator
  that answers NaN is not consistent, and the language then leaves the order to the engine.
  The insertion sort below treats NaN as the engine does, as no order between the two rows,
  but it may compare other pairs than the engine's sort does: in that case it stands for
  the engine only on runs in which each comparison made gives the same answer in both,
  as in the run of \<open>odd_env\<close> examined under claim C7.
\<close>

fun insert_by :: "('a \<Rightarrow> 'a \<Rightarrow> jsnum) \<Rightarrow> 'a \<Rightarrow> 'a list \<Rightarrow> 'a list" where
  "insert_by cmp x [] = [x]"
| "insert_by cmp x (y # ys) =
     (if js_gt (cmp x y) (Fin 0) then y # insert_by cmp x ys else x # y # ys)"

definition Array_sort :: "('a \<Rightarrow> 'a \<Rightarrow> jsnum) \<Rightarrow> 'a list \<Rightarrow> 'a list" where
  "Array_sort cmp xs = foldr (insert_by cmp) xs []"

definition results :: "nat \<Rightarrow> (string, Aggregated) Map \<Rightarrow> StockRow list" where
  "results n agg = map to_result (filter (qualifies n) (Map_values agg))"

definition topStocks :: "nat \<Rightarrow> (string, Aggregated) Map \<Rightarrow> StockRow list" where
  "topStocks n agg = take 10 (Array_sort compareFn (results n agg))"

subsection \<open>The handler\<close>

text \<open>
  A response is an error message with its status or, with status 200, the number of days
  analysed and the ranked rows. Every throw of the model happens inside the inner
  \<open>try\<close>, so the outer \<open>catch\<close> with its status 500 has no branch here.
\<close>

datatype response = Error string nat | Success nat "StockRow list"

definition POST :: "(string \<Rightarrow> jsnum) \<Rightarrow> env \<Rightarrow> response" where
  "POST num e =
     (let dailyMaps = locate e 0 []
      in if length dailyMaps = 0
         then Error ''No recent trading days found in NSE archives.'' 502
         else
           let agg = aggregate num (rev dailyMaps)
           in Success (length dailyMaps) (topStocks (length dailyMaps) agg))"

section \<open>Notions used to state the properties\<close>

subsection \<open>What one row does to an accumulator\<close>

definition add_row :: "(string \<Rightarrow> jsnum) \<Rightarrow> Row \<Rightarrow> Aggregated \<Rightarrow> Aggregated" where
  \<comment> \<open>The accumulator after a row that is not stepped over; \<open>fold_row_eq\<close> ties it to the loop.\<close>
  "add_row num r a =
     (let high = safeNumber num (HIGH r);
          low = safeNumber num (LOW r);
          close = safeNumber num (CLOSE r);
          volume = safeNumber num (TOTTRDQTY r);
          tradedValue = safeNumber num (TOTTRDVAL r)
      in a\<lparr>sumVolume := js_add (sumVolume a) volume,
           sumTradedValue := js_add (sumTradedValue a) tradedValue,
           sumMFVolume := js_add (sumMFVolume a) (js_mul (mfm high low close) volume),
           days := days a + 1,
           firstClose := (if firstClose a = None then Some close else firstClose a),
           lastClose := Some close\<rparr>)"

definition get_or_new :: "(string, Aggregated) Map \<Rightarrow> string \<Rightarrow> Aggregated" where
  \<comment> \<open>The accumulator of a symbol, or the fresh one when the map has none.\<close>
  "get_or_new agg k = (case Map_get agg k of Some a \<Rightarrow> a | None \<Rightarrow> new_Aggregated k)"

fun value_of :: "jsnum \<Rightarrow> real" where
  \<comment> \<open>The real behind a finite number; used on the results of \<open>safeNumber\<close>, which are finite.\<close>
  "value_of (Fin x) = x"
| "value_of PInf = 0"
| "value_of NInf = 0"
| "value_of NaN = 0"

definition contribution :: "(string \<Rightarrow> jsnum) \<Rightarrow> string \<Rightarrow> (string, Row) Map \<Rightarrow> Row option" where
  \<comment> \<open>The row a session folds into the accumulator of a symbol, if it has one.\<close>
  "contribution num symb m =
     (case Map_get m symb of
        None \<Rightarrow> None
      | Some r \<Rightarrow> if skipped num r then None else Some r)"

definition contributions :: "(string \<Rightarrow> jsnum) \<Rightarrow> string \<Rightarrow> (string, Row) Map list \<Rightarrow> Row list" where
  \<comment> \<open>The rows of a symbol that a list of sessions folds, in the order of the sessions.\<close>
  "contributions num symb ms = List.map_filter (contribution num symb) ms"

definition contributes :: "(string \<Rightarrow> jsnum) \<Rightarrow> (string, Row) Map \<Rightarrow> bool" where
  \<comment> \<open>A session contributes when at least one of its rows is folded into an accumulator.\<close>
  "contributes num m = list_ex (\<lambda>(symb, r). \<not> skipped num r) m"

definition score :: "StockRow \<Rightarrow> jsnum" where
  \<comment> \<open>The score of a result row, as the comparator computes it for each argument.\<close>
  "score x =
     js_mul (cmf x)
       (js_add (Fin 1) (js_mul (Fin 0.15) (js_log10 (js_add (Fin 1) (totalTradedValue x)))))"

subsection \<open>The days the walk uses\<close>

definition session_of :: "env \<Rightarrow> nat \<Rightarrow> (string, Row) Map" where
  \<comment> \<open>The map of \<open>EQ\<close> rows the archive of a day gives; empty when the day gives none.\<close>
  "session_of e d = (case try_date (archive e d) of Inr (Some m) \<Rightarrow> m | _ \<Rightarrow> [])"

definition has_session :: "env \<Rightarrow> nat \<Rightarrow> bool" where
  \<comment> \<open>The day is not a weekend day and its archive gives at least one \<open>EQ\<close> row.\<close>
  "has_session e d = (cursor_day e d \<notin> {6, 0} \<and> session_of e d \<noteq> [])"

definition sessions_after :: "env \<Rightarrow> nat \<Rightarrow> nat" where
  \<comment> \<open>The number of days with a session that are more recent than day \<open>d\<close>.\<close>
  "sessions_after e d = length (filter (has_session e) [1..<d])"

definition used :: "env \<Rightarrow> nat \<Rightarrow> bool" where
  \<comment> \<open>Day \<open>d\<close> has a session, fewer than five sessions are more recent, and these
     sessions and the \<open>d\<close> calendar days walked stay within the budget.\<close>
  "used e d \<longleftrightarrow> has_session e d \<and> sessions_after e d < 5 \<and> sessions_after e d + d \<le> 18"

definition dataless_weekdays_after :: "env \<Rightarrow> nat \<Rightarrow> nat" where
  \<comment> \<open>The number of days more recent than day \<open>d\<close> that are no weekend day and give no session.\<close>
  "dataless_weekdays_after e d =
     length (filter (\<lambda>j. cursor_day e j \<notin> {6, 0} \<and> session_of e j = []) [1..<d])"

definition oldest_first :: "env \<Rightarrow> (string, Row) Map list" where
  \<comment> \<open>The sessions of the days the walk uses, from the earliest date, day 18, to the latest.\<close>
  "oldest_first e = map (session_of e) (filter (used e) (rev [1..<19]))"

definition change_percent :: "jsnum \<Rightarrow> jsnum \<Rightarrow> jsnum" where
  \<comment> \<open>The price change in percent from a first close to a last close, 0 when the first
     close is zero, NaN or negative or the last close is zero or NaN.\<close>
  "change_percent f l =
     (if truthy f \<and> truthy l \<and> js_gt f (Fin 0) then js_mul (js_div (js_sub l f) f) (Fin 100)
      else Fin 0)"

function locate_days :: "env \<Rightarrow> nat \<Rightarrow> nat list \<Rightarrow> nat list" where
  \<comment> \<open>The walk of \<open>locate\<close>, recording the day where \<open>locate\<close> records the day's map.\<close>
  "locate_days e k ds =
     (if length ds < neededDays \<and> length ds + k \<le> neededDays + maxLookback
      then
        if cursor_day e (k + 1) \<in> {6, 0} then locate_days e (k + 1) ds
        else
          (case try_date (archive e (k + 1)) of
             Inl err \<Rightarrow> locate_days e (k + 1) ds
           | Inr None \<Rightarrow> locate_days e (k + 1) ds
           | Inr (Some m) \<Rightarrow> locate_days e (k + 1) (ds @ [k + 1]))
      else ds)"
  by pat_completeness auto
termination
  by (relation "measure (\<lambda>(e, k, ds). neededDays + maxLookback + 1 - k)") auto

declare locate_days.simps [simp del]

subsection \<open>An instance of \<open>Number\<close> for the examples\<close>

text \<open>
  The properties hold for every function \<open>num\<close>. The examples need one: \<open>Number_int\<close>
  reads the empty string as 0 and an optionally negated run of decimal digits as that
  integer, as \<open>Number\<close> does, and gives NaN for the other strings of the examples.
\<close>

fun digits_value :: "string \<Rightarrow> nat \<Rightarrow> nat option" where
  "digits_value [] acc = Some acc"
| "digits_value (c # cs) acc =
     (if c \<in> set ''0123456789'' then digits_value cs (10 * acc + (of_char c - 48)) else None)"

definition Number_int :: "string \<Rightarrow> jsnum" where
  "Number_int s =
     (case s of
        [] \<Rightarrow> Fin 0
      | c # cs \<Rightarrow>
          if c = CHR ''-''
          then (case cs of
                  [] \<Rightarrow> NaN
                | d # ds \<Rightarrow> (case digits_value cs 0 of None \<Rightarrow> NaN | Some n \<Rightarrow> Fin (- real n)))
          else (case digits_value s 0 of None \<Rightarrow> NaN | Some n \<Rightarrow> Fin (real n)))"

definition eq_row :: "string \<Rightarrow> string \<Rightarrow> string \<Rightarrow> string \<Rightarrow> string \<Rightarrow> string \<Rightarrow> Row" where
  \<comment> \<open>An \<open>EQ\<close> row from its symbol, high, low, close, traded quantity and traded value.\<close>
  "eq_row s h l c q v =
     \<lparr>SYMBOL = s, SERIES = ''EQ'', OPEN = Some c, HIGH = Some h, LOW = Some l,
      CLOSE = Some c, TOTTRDQTY = Some q, TOTTRDVAL = Some v\<rparr>"

definition served :: "Row list \<Rightarrow> http_result" where
  \<comment> \<open>A successful download of an archive whose one member parses to the given rows.\<close>
  "served rs = Response True (Zip [Table (map Some rs)])"

subsection \<open>A sample run\<close>

text \<open>
  Today is a Monday. Counting back, days 1 and 2 are the weekend; the archives of days 3, 5
  and 7 download and parse; day 4 is a network failure, day 6 a response that is not ok,
  day 10 a body that is no ZIP, day 11 a ZIP without members, day 12 text that does not
  parse, day 13 a report without \<open>EQ\<close> rows; every other day is a response that is not ok.
  \<open>ABC\<close> trades in all three sessions (the two sessions of the specification's scenario
  and one more), \<open>XYZ\<close> in two of them.
\<close>

definition sample_env :: env where
  "sample_env =
     \<lparr>today = 1,
      archive = (\<lambda>d.
        if d = 3 then served [eq_row ''ABC'' ''130'' ''110'' ''120'' ''1000'' ''120000'']
        else if d = 4 then Rejected
        else if d = 5 then served [eq_row ''ABC'' ''120'' ''100'' ''118'' ''2000'' ''236000'',
                                   eq_row ''XYZ'' ''50'' ''40'' ''50'' ''300'' ''15000'']
        else if d = 7 then served [eq_row ''ABC'' ''110'' ''90'' ''105'' ''1000'' ''105000'',
                                   eq_row ''XYZ'' ''50'' ''40'' ''50'' ''300'' ''15000'']
        else if d = 10 then Response True NotAZip
        else if d = 11 then Response True (Zip [])
        else if d = 12 then Response True (Zip [Malformed])
        else if d = 13 then
          Response True
            (Zip [Table [None, Some ((eq_row ''GOVT'' ''101'' ''100'' ''100'' ''10'' ''1000'')
                                       \<lparr>SERIES := ''GS''\<rparr>)]])
        else Response False NotAZip)\<rparr>"

text \<open>
  Three more runs, all on a Monday. In \<open>dark_env\<close> every request is rejected. In
  \<open>idle_env\<close> only day 3 has a report, with one \<open>EQ\<close> row of volume 0. In \<open>gap_env\<close> the
  four days 3 to 6 and day 17, a Friday, have a report and no other day has.
\<close>

definition dark_env :: env where
  "dark_env = \<lparr>today = 1, archive = (\<lambda>d. Rejected)\<rparr>"

definition idle_env :: env where
  "idle_env =
     \<lparr>today = 1,
      archive = (\<lambda>d.
        if d = 3 then served [eq_row ''ABC'' ''110'' ''90'' ''105'' ''0'' ''0'']
        else Response False NotAZip)\<rparr>"

definition gap_env :: env where
  "gap_env =
     \<lparr>today = 1,
      archive = (\<lambda>d.
        if d \<in> {3, 4, 5, 6, 17} then served [eq_row ''ABC'' ''110'' ''90'' ''105'' ''1000'' ''105000'']
        else Response False NotAZip)\<rparr>"

text \<open>
  Two runs with reports a provider should not send but the handler accepts. In \<open>odd_env\<close>
  the days 3, 4 and 5 each list \<open>A\<close>, \<open>N\<close> and \<open>B\<close>, and \<open>N\<close> has a negative traded value. In
  \<open>bad_close_env\<close> the same days list \<open>BAD\<close> with a dash where the close should be.
\<close>

definition odd_env :: env where
  "odd_env =
     \<lparr>today = 1,
      archive = (\<lambda>d.
        if d \<in> {3, 4, 5} then
          served [eq_row ''A'' ''110'' ''90'' ''105'' ''1000'' ''0'',
                  eq_row ''N'' ''110'' ''90'' ''105'' ''1000'' ''-2'',
                  eq_row ''B'' ''110'' ''90'' ''110'' ''1000'' ''0'']
        else Response False NotAZip)\<rparr>"

definition bad_close_env :: env where
  "bad_close_env =
     \<lparr>today = 1,
      archive = (\<lambda>d.
        if d \<in> {3, 4, 5} then served [eq_row ''BAD'' ''110'' ''90'' ''-'' ''1000'' ''100000'']
        else Response False NotAZip)\<rparr>"

section \<open>Properties\<close>

subsection \<open>Facts about numbers\<close>

lemma isFinite_iff: "isFinite n \<longleftrightarrow> (\<exists>x. n = Fin x)"
  by (cases n) simp_all

lemma safeNumber_Fin: "\<exists>x. safeNumber num v = Fin x"
  by (cases v) (auto simp: safeNumber_def Let_def isFinite_iff)

lemma MAX_VALUE_large: "10 ^ 18 \<le> MAX_VALUE"
proof -
  have "(10 :: real) ^ 18 \<le> 2 ^ 971"
    by simp
  also have "\<dots> \<le> MAX_VALUE"
    by (simp add: MAX_VALUE_def)
  finally show ?thesis .
qed

lemma MAX_VALUE_pos: "0 < MAX_VALUE"
  using MAX_VALUE_large by (rule less_le_trans[rotated]) simp

lemma overflow_in_range: "\<bar>r\<bar> \<le> MAX_VALUE \<Longrightarrow> overflow r = Fin r"
  by (auto simp: overflow_def)

lemma overflow_small: "\<bar>r\<bar> \<le> 1000000000000000000 \<Longrightarrow> overflow r = Fin r"
  using MAX_VALUE_large by (intro overflow_in_range) simp

lemma overflow_0 [simp]: "overflow 0 = Fin 0"
  by (simp add: overflow_small)

lemma overflow_eq_Fin_iff: "overflow r = Fin x \<longleftrightarrow> r = x \<and> \<bar>r\<bar> \<le> MAX_VALUE"
  by (auto simp: overflow_def)

lemma overflow_cases: "overflow r = Fin r \<or> (overflow r = PInf \<and> 0 < r) \<or> (overflow r = NInf \<and> r < 0)"
  using MAX_VALUE_pos by (auto simp: overflow_def)

lemma js_sub_Fin [simp]: "js_sub (Fin x) (Fin y) = overflow (x - y)"
  by (simp add: js_sub_def)

lemma js_eq_Fin [simp]: "js_eq (Fin x) (Fin y) \<longleftrightarrow> x = y"
  by (simp add: js_eq_def)

lemma js_gt_Fin [simp]: "js_gt (Fin x) (Fin y) \<longleftrightarrow> y < x"
  by (simp add: js_gt_def)

lemma js_ge_Fin [simp]: "js_ge (Fin x) (Fin y) \<longleftrightarrow> y \<le> x"
  by (simp add: js_ge_def)

lemma range_zero_iff: "js_sub (Fin h) (Fin l) = Fin 0 \<longleftrightarrow> h = l"
  using MAX_VALUE_pos by (auto simp: overflow_eq_Fin_iff)

lemma range_test: "js_eq (js_sub (Fin h) (Fin l)) (Fin 0) \<longleftrightarrow> h = l"
  using range_zero_iff[of h l] by (auto simp: js_eq_def simp del: js_sub_Fin)

lemma mfm_Fin:
  "mfm (Fin h) (Fin l) (Fin c) =
     (if h = l then Fin 0
      else js_div (js_sub (js_sub (Fin c) (Fin l)) (js_sub (Fin h) (Fin c)))
             (js_sub (Fin h) (Fin l)))"
  by (simp add: mfm_def Let_def range_test del: js_sub_Fin)

lemma js_le_trans: "js_le x y \<Longrightarrow> js_le y z \<Longrightarrow> js_le x z"
  by (cases x; cases y; cases z) simp_all

lemma js_le_refl: "x \<noteq> NaN \<Longrightarrow> js_le x x"
  by (cases x) simp_all

lemma js_add_grows:
  assumes "js_le (Fin 0) x" and "0 \<le> q"
  shows "js_le x (js_add x (Fin q))"
proof (cases x)
  case (Fin v)
  with assms have "0 \<le> v + q" by simp
  with overflow_cases[of "v + q"] Fin assms(2) show ?thesis by auto
qed (use assms in simp_all)

subsection \<open>Maps and the fold over rows, days and sessions\<close>

lemma Map_get_Map_set:
  "Map_get (Map_set k v m) k' = (if k' = k then Some v else Map_get m k')"
  by (induction m) (auto simp: Map_get_def)

lemma keys_Map_set:
  "map fst (Map_set k v m) = (if k \<in> set (map fst m) then map fst m else map fst m @ [k])"
  by (induction m) auto

lemma distinct_Map_set: "distinct (map fst m) \<Longrightarrow> distinct (map fst (Map_set k v m))"
  by (simp add: keys_Map_set)

lemma Map_get_None_iff: "Map_get m k = None \<longleftrightarrow> k \<notin> fst ` set m"
  by (simp add: Map_get_def map_of_eq_None_iff)

lemma Map_get_Some_iff:
  "distinct (map fst m) \<Longrightarrow> Map_get m k = Some v \<longleftrightarrow> (k, v) \<in> set m"
  by (simp add: Map_get_def)

lemma fold_row_eq:
  "fold_row num s r agg =
     (if skipped num r then agg else Map_set s (add_row num r (get_or_new agg s)) agg)"
  by (simp add: fold_row_def add_row_def skipped_def get_or_new_def Let_def)

lemma collect_EQ_distinct:
  "distinct (map fst m) \<Longrightarrow> distinct (map fst (collect_EQ rs m))"
  by (induction rs m rule: collect_EQ.induct) (auto simp: distinct_Map_set)

lemma fold_row_distinct:
  "distinct (map fst agg) \<Longrightarrow> distinct (map fst (fold_row num s r agg))"
  by (simp add: fold_row_eq distinct_Map_set)

lemma fold_day_Cons: "fold_day num ((s, r) # m) agg = fold_day num m (fold_row num s r agg)"
  by (simp add: fold_day_def)

lemma fold_day_Nil: "fold_day num [] agg = agg"
  by (simp add: fold_day_def)

lemma fold_day_distinct:
  "distinct (map fst agg) \<Longrightarrow> distinct (map fst (fold_day num m agg))"
  by (induction m arbitrary: agg) (auto simp: fold_day_Cons fold_day_Nil fold_row_distinct)

lemma contribution_Nil: "contribution num k [] = None"
  by (simp add: contribution_def Map_get_def)

lemma contribution_Cons:
  "contribution num k ((s, r) # m) =
     (if k = s then (if skipped num r then None else Some r) else contribution num k m)"
  by (simp add: contribution_def Map_get_def)

lemma contribution_absent: "k \<notin> fst ` set m \<Longrightarrow> contribution num k m = None"
  by (simp add: contribution_def Map_get_None_iff[symmetric])

lemma fold_day_absent: "k \<notin> fst ` set m \<Longrightarrow> Map_get (fold_day num m agg) k = Map_get agg k"
  by (induction m arbitrary: agg)
     (auto simp: fold_day_Cons fold_day_Nil fold_row_eq Map_get_Map_set)

lemma fold_day_get:
  "distinct (map fst m) \<Longrightarrow>
   Map_get (fold_day num m agg) k =
     (case contribution num k m of
        None \<Rightarrow> Map_get agg k
      | Some r \<Rightarrow> Some (add_row num r (get_or_new agg k)))"
proof (induction m arbitrary: agg)
  case Nil
  show ?case by (simp add: fold_day_Nil contribution_Nil)
next
  case (Cons p m)
  obtain s r where p: "p = (s, r)" by (cases p)
  from Cons.prems p have absent: "s \<notin> fst ` set m" and dist: "distinct (map fst m)"
    by auto
  show ?case
  proof (cases "k = s")
    case True
    with absent show ?thesis
      by (simp add: p fold_day_Cons fold_day_absent contribution_Cons fold_row_eq Map_get_Map_set)
  next
    case False
    then show ?thesis
      using Cons.IH[OF dist]
      by (simp add: p fold_day_Cons contribution_Cons fold_row_eq Map_get_Map_set get_or_new_def
               split: option.splits)
  qed
qed

lemma contributions_Nil: "contributions num k [] = []"
  by (simp add: contributions_def)

lemma contributions_Cons:
  "contributions num k (m # ms) =
     (case contribution num k m of
        None \<Rightarrow> contributions num k ms
      | Some r \<Rightarrow> r # contributions num k ms)"
  by (simp add: contributions_def split: option.splits)

lemma contributions_append:
  "contributions num k (ms @ ms') = contributions num k ms @ contributions num k ms'"
  by (simp add: contributions_def map_filter_def)

lemma length_contributions: "length (contributions num k ms) \<le> length ms"
  by (induction ms) (auto simp: contributions_Nil contributions_Cons split: option.splits)

lemma fold_days_get:
  "\<forall>m \<in> set ms. distinct (map fst m) \<Longrightarrow>
   Map_get (fold (fold_day num) ms agg) k =
     (if contributions num k ms = [] then Map_get agg k
      else Some (fold (add_row num) (contributions num k ms) (get_or_new agg k)))"
proof (induction ms arbitrary: agg)
  case Nil
  show ?case by (simp add: contributions_Nil)
next
  case (Cons m ms)
  let ?agg1 = "fold_day num m agg"
  from Cons.prems have dm: "distinct (map fst m)" and dms: "\<forall>m \<in> set ms. distinct (map fst m)"
    by auto
  note IH = Cons.IH[OF dms, of ?agg1]
  show ?case
  proof (cases "contribution num k m")
    case None
    then have "Map_get ?agg1 k = Map_get agg k"
      by (simp add: fold_day_get[OF dm])
    then show ?thesis
      using IH None by (simp add: contributions_Cons get_or_new_def)
  next
    case (Some r)
    then have g: "Map_get ?agg1 k = Some (add_row num r (get_or_new agg k))"
      by (simp add: fold_day_get[OF dm])
    then have "get_or_new ?agg1 k = add_row num r (get_or_new agg k)"
      by (simp add: get_or_new_def)
    then show ?thesis
      using IH Some g by (simp add: contributions_Cons)
  qed
qed

lemma aggregate_get:
  "\<forall>m \<in> set ms. distinct (map fst m) \<Longrightarrow>
   Map_get (aggregate num ms) k =
     (if contributions num k ms = [] then None
      else Some (fold (add_row num) (contributions num k ms) (new_Aggregated k)))"
proof -
  assume d: "\<forall>m \<in> set ms. distinct (map fst m)"
  have e: "Map_get ([] :: (string, Aggregated) Map) k = None"
    by (simp add: Map_get_def)
  show ?thesis
    unfolding aggregate_def fold_days_get[OF d] by (simp add: get_or_new_def e)
qed

lemma aggregate_distinct: "distinct (map fst (aggregate num ms))"
proof -
  have "distinct (map fst agg) \<Longrightarrow> distinct (map fst (fold (fold_day num) ms agg))" for agg
    by (induction ms arbitrary: agg) (auto simp: fold_day_distinct)
  then show ?thesis by (simp add: aggregate_def)
qed

subsection \<open>Reading numbers and the row check\<close>



lemma not_skipped_iff:
  "\<not> skipped num r \<longleftrightarrow>
     js_gt (safeNumber num (TOTTRDQTY r)) (Fin 0) \<and>
     js_gt (safeNumber num (HIGH r)) (Fin 0) \<and>
     js_gt (safeNumber num (LOW r)) (Fin 0)"
proof -
  obtain v h l where
    "safeNumber num (TOTTRDQTY r) = Fin v" "safeNumber num (HIGH r) = Fin h"
    "safeNumber num (LOW r) = Fin l"
    using safeNumber_Fin by meson
  then show ?thesis by (auto simp: skipped_def)
qed

lemma days_add_row: "days (add_row num r a) = days a + 1"
  by (simp add: add_row_def Let_def)

lemma symbol_add_row: "Aggregated.symbol (add_row num r a) = Aggregated.symbol a"
  by (simp add: add_row_def Let_def)

text \<open>
  Claim C2. For a row that passes the check on volume, high and low, the handler tests the
  range high - low against 0, and the test succeeds exactly when high equals low. Then the
  money flow multiplier is exactly 0 and the row adds 0 to \<open>sumMFVolume\<close>. Otherwise the
  divisor is not 0, the multiplier is the quotient of (close - low) - (high - close) by the
  range, and the row adds that quotient times its volume. So the division never has a
  divisor of 0.
\<close>

theorem division_guarded_in_fold:
  assumes "\<not> skipped num r"
  shows "\<exists>h l c v a'.
           safeNumber num (HIGH r) = Fin h \<and> safeNumber num (LOW r) = Fin l \<and>
           safeNumber num (CLOSE r) = Fin c \<and> safeNumber num (TOTTRDQTY r) = Fin v \<and>
           Map_get (fold_row num symb r agg) symb = Some a' \<and>
           (js_eq (js_sub (Fin h) (Fin l)) (Fin 0) \<longleftrightarrow> h = l) \<and>
           (h = l \<longrightarrow>
              mfm (Fin h) (Fin l) (Fin c) = Fin 0 \<and>
              sumMFVolume a' = js_add (sumMFVolume (get_or_new agg symb)) (Fin 0)) \<and>
           (h \<noteq> l \<longrightarrow>
              js_sub (Fin h) (Fin l) \<noteq> Fin 0 \<and>
              mfm (Fin h) (Fin l) (Fin c) =
                js_div (js_sub (js_sub (Fin c) (Fin l)) (js_sub (Fin h) (Fin c)))
                  (js_sub (Fin h) (Fin l)) \<and>
              sumMFVolume a' =
                js_add (sumMFVolume (get_or_new agg symb))
                  (js_mul (js_div (js_sub (js_sub (Fin c) (Fin l)) (js_sub (Fin h) (Fin c)))
                             (js_sub (Fin h) (Fin l)))
                     (Fin v)))"
proof -
  obtain h l c v where
    hlc: "safeNumber num (HIGH r) = Fin h" "safeNumber num (LOW r) = Fin l"
      "safeNumber num (CLOSE r) = Fin c" "safeNumber num (TOTTRDQTY r) = Fin v"
    using safeNumber_Fin by meson
  define a' where "a' = add_row num r (get_or_new agg symb)"
  have get: "Map_get (fold_row num symb r agg) symb = Some a'"
    using assms by (simp add: fold_row_eq Map_get_Map_set a'_def)
  have zero: "js_eq (js_sub (Fin h) (Fin l)) (Fin 0) \<longleftrightarrow> h = l"
    by (rule range_test)
  have sum: "sumMFVolume a' =
      js_add (sumMFVolume (get_or_new agg symb)) (js_mul (mfm (Fin h) (Fin l) (Fin c)) (Fin v))"
    by (simp add: a'_def add_row_def Let_def hlc del: js_sub_Fin)
  have flat: "mfm (Fin h) (Fin l) (Fin c) = Fin 0 \<and>
      sumMFVolume a' = js_add (sumMFVolume (get_or_new agg symb)) (Fin 0)" if "h = l"
    using that sum by (simp add: mfm_Fin)
  have steep: "js_sub (Fin h) (Fin l) \<noteq> Fin 0 \<and>
      mfm (Fin h) (Fin l) (Fin c) =
        js_div (js_sub (js_sub (Fin c) (Fin l)) (js_sub (Fin h) (Fin c)))
          (js_sub (Fin h) (Fin l)) \<and>
      sumMFVolume a' =
        js_add (sumMFVolume (get_or_new agg symb))
          (js_mul (js_div (js_sub (js_sub (Fin c) (Fin l)) (js_sub (Fin h) (Fin c)))
                     (js_sub (Fin h) (Fin l)))
             (Fin v))" if "h \<noteq> l"
    using that sum range_zero_iff[of h l] by (simp add: mfm_Fin del: js_sub_Fin)
  from hlc get zero flat steep show ?thesis
    by blast
qed

theorem division_guarded_in_fold_witness:
  "\<not> skipped Number_int (eq_row ''FLAT'' ''100'' ''100'' ''100'' ''500'' ''7'') \<and>
   mfm (Fin 100) (Fin 100) (Fin 100) = Fin 0 \<and>
   (\<exists>a'. Map_get (fold_row Number_int ''FLAT''
                    (eq_row ''FLAT'' ''100'' ''100'' ''100'' ''500'' ''7'') []) ''FLAT'' = Some a' \<and>
         sumMFVolume a' = Fin 0) \<and>
   \<not> skipped Number_int (eq_row ''ABC'' ''110'' ''90'' ''105'' ''1000'' ''0'') \<and>
   mfm (Fin 110) (Fin 90) (Fin 105) = Fin (1 / 2) \<and>
   (\<exists>a'. Map_get (fold_row Number_int ''ABC''
                    (eq_row ''ABC'' ''110'' ''90'' ''105'' ''1000'' ''0'') []) ''ABC'' = Some a' \<and>
         sumMFVolume a' = Fin 500)"
proof -
  let ?flat = "eq_row ''FLAT'' ''100'' ''100'' ''100'' ''500'' ''7''"
  let ?abc = "eq_row ''ABC'' ''110'' ''90'' ''105'' ''1000'' ''0''"
  have a: "\<not> skipped Number_int ?flat"
    by (simp add: skipped_def eq_row_def safeNumber_def Number_int_def)
  have b: "\<not> skipped Number_int ?abc"
    by (simp add: skipped_def eq_row_def safeNumber_def Number_int_def)
  have va: "safeNumber Number_int (HIGH ?flat) = Fin 100" "safeNumber Number_int (LOW ?flat) = Fin 100"
      "safeNumber Number_int (CLOSE ?flat) = Fin 100" "safeNumber Number_int (TOTTRDQTY ?flat) = Fin 500"
    by (simp_all add: eq_row_def safeNumber_def Number_int_def)
  have vb: "safeNumber Number_int (HIGH ?abc) = Fin 110" "safeNumber Number_int (LOW ?abc) = Fin 90"
      "safeNumber Number_int (CLOSE ?abc) = Fin 105" "safeNumber Number_int (TOTTRDQTY ?abc) = Fin 1000"
    by (simp_all add: eq_row_def safeNumber_def Number_int_def)
  have n: "sumMFVolume (get_or_new [] k) = Fin 0" for k :: string
    by (simp add: get_or_new_def Map_get_def new_Aggregated_def)
  from division_guarded_in_fold[OF a, of "''FLAT''" "[]"] have 1:
    "mfm (Fin 100) (Fin 100) (Fin 100) = Fin 0 \<and>
     (\<exists>a'. Map_get (fold_row Number_int ''FLAT'' ?flat []) ''FLAT'' = Some a' \<and>
           sumMFVolume a' = Fin 0)"
    unfolding va n by auto
  from division_guarded_in_fold[OF b, of "''ABC''" "[]"] have 2:
    "mfm (Fin 110) (Fin 90) (Fin 105) = Fin (1 / 2) \<and>
     (\<exists>a'. Map_get (fold_row Number_int ''ABC'' ?abc []) ''ABC'' = Some a' \<and>
           sumMFVolume a' = Fin 500)"
    unfolding vb n by (auto simp: overflow_small)
  from a b 1 2 show ?thesis by blast
qed



subsection \<open>The walk\<close>

lemma try_date_Some:
  "try_date h = Inr (Some m) \<Longrightarrow> m \<noteq> [] \<and> distinct (map fst m)"
  by (auto simp: try_date_def Let_def collect_EQ_distinct
           split: sum.splits option.splits if_splits)

lemma session_of_Some: "try_date (archive e d) = Inr (Some m) \<Longrightarrow> session_of e d = m"
  by (simp add: session_of_def)

lemma session_of_empty_iff:
  "session_of e d = [] \<longleftrightarrow> (\<forall>m. try_date (archive e d) \<noteq> Inr (Some m))"
  by (auto simp: session_of_def dest: try_date_Some split: sum.splits option.splits)

lemma session_of_distinct: "distinct (map fst (session_of e d))"
  by (auto simp: session_of_def dest: try_date_Some split: sum.splits option.splits)

lemma locate_days_step:
  "locate_days e k ds =
     (if length ds < 5 \<and> length ds + k \<le> 17
      then locate_days e (k + 1) (if has_session e (k + 1) then ds @ [k + 1] else ds)
      else ds)"
proof -
  have "try_date (archive e (k + 1)) = Inr (Some m) \<Longrightarrow> session_of e (k + 1) \<noteq> []" for m
    using session_of_empty_iff by blast
  moreover have "try_date (archive e (k + 1)) = Inr None \<Longrightarrow> session_of e (k + 1) = []"
    by (simp add: session_of_def)
  moreover have "try_date (archive e (k + 1)) = Inl err \<Longrightarrow> session_of e (k + 1) = []" for err
    by (simp add: session_of_def)
  ultimately show ?thesis
    by (subst locate_days.simps)
       (auto simp: neededDays_def maxLookback_def has_session_def
             split: sum.splits option.splits)
qed

lemma locate_days_stop:
  "\<not> (length ds < 5 \<and> length ds + k \<le> 17) \<Longrightarrow> locate_days e k ds = ds"
  by (subst locate_days_step) (rule if_not_P)

lemma locate_days_go:
  "length ds < 5 \<and> length ds + k \<le> 17 \<Longrightarrow>
   locate_days e k ds =
     locate_days e (k + 1) (if has_session e (k + 1) then ds @ [k + 1] else ds)"
  by (subst locate_days_step) (rule if_P)

lemma locate_as_days:
  "locate e k (map (session_of e) ds) = map (session_of e) (locate_days e k ds)"
proof (induction e k ds rule: locate_days.induct)
  case (1 e k ds)
  show ?case
  proof (cases "length ds < neededDays \<and> length ds + k \<le> neededDays + maxLookback")
    case False
    then show ?thesis
      by (subst locate.simps, subst locate_days.simps) auto
  next
    case go: True
    show ?thesis
    proof (cases "cursor_day e (k + 1) \<in> {6, 0}")
      case True
      with go "1.IH"(1) show ?thesis
        by (subst locate.simps, subst locate_days.simps) simp
    next
      case wd: False
      show ?thesis
      proof (cases "try_date (archive e (k + 1))")
        case (Inl err)
        with go wd "1.IH"(2) show ?thesis
          by (subst locate.simps, subst locate_days.simps) simp
      next
        case (Inr o1)
        show ?thesis
        proof (cases o1)
          case None
          with Inr go wd "1.IH"(3) show ?thesis
            by (subst locate.simps, subst locate_days.simps) simp
        next
          case (Some m)
          with Inr go wd "1.IH"(4)[of o1 m] session_of_Some[of e "k + 1" m] show ?thesis
            by (subst locate.simps, subst locate_days.simps) simp
        qed
      qed
    qed
  qed
qed

lemma locate_eq_days: "locate e 0 [] = map (session_of e) (locate_days e 0 [])"
  using locate_as_days[of e 0 "[]"] by simp

lemma sessions_after_Suc:
  "sessions_after e (Suc d) =
     (if 1 \<le> d \<and> has_session e d then sessions_after e d + 1 else sessions_after e d)"
  by (simp add: sessions_after_def)

lemma sessions_after_mono: "d \<le> d' \<Longrightarrow> sessions_after e d \<le> sessions_after e d'"
  by (induction d') (auto simp: le_Suc_eq sessions_after_Suc)

lemma sessions_after_ge: "d < d' \<Longrightarrow> sessions_after e (d + 1) \<le> sessions_after e d'"
  by (simp add: sessions_after_mono)

lemma locate_days_closed_gen:
  "ds = filter (has_session e) [1..<k + 1] \<Longrightarrow>
   locate_days e k ds = ds @ filter (used e) [k + 1..<19]"
proof (induction n \<equiv> "18 - k" arbitrary: k ds)
  case 0
  then have "18 \<le> k" by simp
  then show ?case
    by (simp add: locate_days_stop)
next
  case (Suc n)
  then have k: "k \<le> 17" and n: "n = 18 - (k + 1)" by simp_all
  have len: "length ds = sessions_after e (k + 1)"
    using Suc.prems by (simp add: sessions_after_def)
  show ?case
  proof (cases "length ds < 5 \<and> length ds + k \<le> 17")
    case False
    have "\<not> used e d" if "d \<in> set [k + 1..<19]" for d
    proof -
      from that have "k < d" by simp
      then have "sessions_after e (k + 1) \<le> sessions_after e d"
        by (rule sessions_after_ge)
      with False len \<open>k < d\<close> show ?thesis
        by (auto simp: used_def)
    qed
    then have "filter (used e) [k + 1..<19] = []"
      by (simp add: filter_empty_conv del: upt_Suc)
    with False show ?thesis
      by (simp add: locate_days_stop)
  next
    case True
    let ?ds' = "if has_session e (k + 1) then ds @ [k + 1] else ds"
    have ds': "?ds' = filter (has_session e) [1..<(k + 1) + 1]"
      using Suc.prems by simp
    have u: "used e (k + 1) \<longleftrightarrow> has_session e (k + 1)"
      using True len by (auto simp: used_def)
    have split: "[k + 1..<19] = (k + 1) # [(k + 1) + 1..<19]"
      using k by (simp add: upt_conv_Cons del: upt_Suc)
    have "locate_days e k ds = locate_days e (k + 1) ?ds'"
      using True by (rule locate_days_go)
    also have "\<dots> = ?ds' @ filter (used e) [(k + 1) + 1..<19]"
      by (rule Suc.hyps(1)[OF n ds'])
    also have "\<dots> = ds @ filter (used e) [k + 1..<19]"
      unfolding split using u by simp
    finally show ?thesis .
  qed
qed

lemma locate_days_closed: "locate_days e 0 [] = filter (used e) [1..<19]"
  using locate_days_closed_gen[of "[]" e 0] by simp

lemma locate_days_sorted: "sorted_wrt (<) (locate_days e 0 [])"
  unfolding locate_days_closed by (rule sorted_wrt_filter) (simp del: upt_Suc)

lemma locate_days_set: "set (locate_days e 0 []) = {d. 1 \<le> d \<and> d \<le> 18 \<and> used e d}"
  unfolding locate_days_closed by auto

lemma locate_days_empty_iff:
  "locate_days e 0 [] = [] \<longleftrightarrow> (\<forall>d \<in> {1..18}. \<not> has_session e d)"
proof
  assume "locate_days e 0 [] = []"
  then have none: "\<forall>d. 1 \<le> d \<and> d \<le> 18 \<longrightarrow> \<not> used e d"
    using locate_days_set[of e] by auto
  show "\<forall>d \<in> {1..18}. \<not> has_session e d"
  proof (rule ccontr)
    assume "\<not> (\<forall>d \<in> {1..18}. \<not> has_session e d)"
    then obtain d where d: "1 \<le> d \<and> d \<le> 18 \<and> has_session e d" by auto
    define d0 where "d0 = (LEAST d. 1 \<le> d \<and> d \<le> 18 \<and> has_session e d)"
    have d0: "1 \<le> d0 \<and> d0 \<le> 18 \<and> has_session e d0"
      unfolding d0_def using d by (rule LeastI)
    have least: "\<not> (1 \<le> j \<and> j \<le> 18 \<and> has_session e j)" if "j < d0" for j
      using that not_less_Least unfolding d0_def by blast
    have "filter (has_session e) [1..<d0] = []"
      using least d0 by (auto simp: filter_empty_conv)
    then have "sessions_after e d0 = 0"
      by (simp add: sessions_after_def)
    with d0 have "used e d0" by (simp add: used_def)
    with none d0 show False by blast
  qed
next
  assume "\<forall>d \<in> {1..18}. \<not> has_session e d"
  then show "locate_days e 0 [] = []"
    unfolding locate_days_closed by (auto simp: filter_empty_conv used_def)
qed

lemma length_locate: "length (locate e 0 []) = length (locate_days e 0 [])"
  by (simp add: locate_eq_days)

lemma length_locate_le: "length (locate e 0 []) \<le> 5"
proof -
  have "length ds \<le> 5 \<Longrightarrow> length (locate_days e k ds) \<le> 5" for k ds
  proof (induction n \<equiv> "18 - k" arbitrary: k ds)
    case 0
    then show ?case by (simp add: locate_days_stop)
  next
    case (Suc n)
    then have n: "n = 18 - (k + 1)" by simp
    show ?case
    proof (cases "length ds < 5 \<and> length ds + k \<le> 17")
      case True
      then have "length (if has_session e (k + 1) then ds @ [k + 1] else ds) \<le> 5" by simp
      from Suc.hyps(1)[OF n this] show ?thesis
        unfolding locate_days_go[OF True] .
    next
      case False
      with Suc.prems show ?thesis by (simp add: locate_days_stop)
    qed
  qed
  from this[of "[]" 0] show ?thesis by (simp add: length_locate)
qed

subsection \<open>The handler and the walk\<close>

lemmas walk_eval = neededDays_def maxLookback_def cursor_day_def
  try_date_def fetchZipCsvBuffer_def unzipFirstCsv_def parse_def served_def eq_row_def Let_def

lemma POST_eq:
  "POST num e =
     (if locate e 0 [] = [] then Error ''No recent trading days found in NSE archives.'' 502
      else Success (length (locate e 0 []))
             (topStocks (length (locate e 0 [])) (aggregate num (rev (locate e 0 [])))))"
  by (simp add: POST_def Let_def)

lemma locate_empty_iff: "locate e 0 [] = [] \<longleftrightarrow> (\<forall>d \<in> {1..18}. \<not> has_session e d)"
  using locate_days_empty_iff[of e] by (simp add: locate_eq_days)

lemma failure_no_session:
  "archive e d = Rejected \<or> (\<exists>body. archive e d = Response False body) \<or>
   archive e d = Response True NotAZip \<or> archive e d = Response True (Zip []) \<or>
   (\<exists>rest. archive e d = Response True (Zip (Malformed # rest))) \<Longrightarrow>
   session_of e d = []"
  by (auto simp: session_of_def try_date_def fetchZipCsvBuffer_def unzipFirstCsv_def parse_def)

text \<open>
  Claim C4. The handler answers with the error of status 502 exactly when none of the 18
  days before today has a session, that is, when the walk ends with no session. A day whose
  request is rejected, whose response is not ok, whose body is no ZIP or a ZIP without
  members, or whose text does not parse, only fails to be a session: when some day within
  the 18 has a session the handler answers with the days analysed and the ranked rows,
  and it never answers with status 500.
\<close>

theorem error_iff_no_session:
  "(POST num e = Error ''No recent trading days found in NSE archives.'' 502 \<longleftrightarrow>
      (\<forall>d \<in> {1..18}. \<not> has_session e d)) \<and>
   ((\<exists>d \<in> {1..18}. has_session e d) \<longrightarrow>
      (\<exists>rows. POST num e = Success (length (locate e 0 [])) rows)) \<and>
   (\<forall>msg. POST num e \<noteq> Error msg 500) \<and>
   (archive e d = Rejected \<or> (\<exists>body. archive e d = Response False body) \<or>
    archive e d = Response True NotAZip \<or> archive e d = Response True (Zip []) \<or>
    (\<exists>rest. archive e d = Response True (Zip (Malformed # rest))) \<longrightarrow>
      \<not> has_session e d)"
proof -
  have 1: "POST num e = Error ''No recent trading days found in NSE archives.'' 502 \<longleftrightarrow>
      (\<forall>d \<in> {1..18}. \<not> has_session e d)"
    unfolding locate_empty_iff[symmetric] by (simp add: POST_eq)
  have 2: "(\<exists>d \<in> {1..18}. has_session e d) \<longrightarrow>
      (\<exists>rows. POST num e = Success (length (locate e 0 [])) rows)"
    using locate_empty_iff[of e] by (auto simp: POST_eq)
  have 3: "\<forall>msg. POST num e \<noteq> Error msg 500"
    by (simp add: POST_eq)
  have 4: "archive e d = Rejected \<or> (\<exists>body. archive e d = Response False body) \<or>
    archive e d = Response True NotAZip \<or> archive e d = Response True (Zip []) \<or>
    (\<exists>rest. archive e d = Response True (Zip (Malformed # rest))) \<longrightarrow>
      \<not> has_session e d"
    using failure_no_session[of e d] by (auto simp: has_session_def)
  from 1 2 3 4 show ?thesis by blast
qed

theorem error_iff_no_session_witness:
  "has_session sample_env 3 \<and> archive sample_env 4 = Rejected \<and> \<not> has_session sample_env 4 \<and>
   (\<exists>rows. POST Number_int sample_env = Success (length (locate sample_env 0 [])) rows) \<and>
   POST Number_int dark_env = Error ''No recent trading days found in NSE archives.'' 502"
proof -
  have h: "has_session sample_env 3"
    by (simp add: has_session_def session_of_def sample_env_def walk_eval)
  then have ex: "\<exists>d \<in> {1..18}. has_session sample_env d"
    by (intro bexI[of _ 3]) simp_all
  have r: "archive sample_env 4 = Rejected"
    by (simp add: sample_env_def)
  have dark: "\<forall>d \<in> {1..18}. \<not> has_session dark_env d"
    by (simp add: has_session_def session_of_def dark_env_def walk_eval)
  note t = error_iff_no_session[of Number_int sample_env 4]
  note t' = error_iff_no_session[of Number_int dark_env 4]
  from t ex have "\<exists>rows. POST Number_int sample_env = Success (length (locate sample_env 0 [])) rows"
    by blast
  moreover from t r have "\<not> has_session sample_env 4"
    by blast
  moreover from t' dark have
    "POST Number_int dark_env = Error ''No recent trading days found in NSE archives.'' 502"
    by blast
  ultimately show ?thesis using h r by blast
qed

lemma used_weekend: "cursor_day e d \<in> {6, 0} \<Longrightarrow> \<not> used e d"
  by (simp add: used_def has_session_def)

lemma locate_closed: "locate e 0 [] = map (session_of e) (filter (used e) [1..<19])"
  by (simp only: locate_eq_days locate_days_closed)

text \<open>
  Claim C5, as stated, fails. The budget is counted in calendar days, weekend days
  included, and every session found uses it up twice, once as a session and once as a
  day walked. In \<open>gap_env\<close> the fifth session, on day 17, has four sessions and only six
  weekdays without data after it, and the walk gives up before reaching it.
\<close>

theorem weekdays_tolerated_counterexample:
  "has_session gap_env 17 \<and> sessions_after gap_env 17 = 4 \<and>
   dataless_weekdays_after gap_env 17 = 6 \<and>
   17 \<notin> set (locate_days gap_env 0 []) \<and> length (locate gap_env 0 []) = 4"
proof -
  have "has_session gap_env 17"
    by code_simp
  moreover have "sessions_after gap_env 17 = 4"
    by code_simp
  moreover have "dataless_weekdays_after gap_env 17 = 6"
    by code_simp
  moreover have "locate_days gap_env 0 [] = [3, 4, 5, 6]"
    by code_simp
  ultimately show ?thesis
    by (simp add: length_locate)
qed

text \<open>
  Claim C5, amended. A weekend day is skipped without a download, but it counts against
  the budget like any other day: the budget is the number of sessions found plus the
  number of calendar days walked, and the walk goes on while this is at most 17. So the
  sessions the walk collects are, most recent first, those of the days \<open>d\<close> from 1 to 18
  that are no weekend day, give a session, have fewer than 5 sessions after them, and for
  which the sessions after them and \<open>d\<close> itself together are at most 18.
\<close>

theorem walk_counts_calendar_days:
  "locate e 0 [] = map (session_of e) (filter (used e) [1..<19]) \<and>
   (cursor_day e d \<in> {6, 0} \<longrightarrow> \<not> used e d) \<and>
   (used e d \<longleftrightarrow>
      cursor_day e d \<notin> {6, 0} \<and> session_of e d \<noteq> [] \<and>
      sessions_after e d < 5 \<and> sessions_after e d + d \<le> 18)"
  using locate_closed[of e] used_weekend[of e d]
  by (auto simp: used_def has_session_def)

theorem walk_counts_calendar_days_witness:
  "cursor_day gap_env 16 \<in> {6, 0} \<and> \<not> used gap_env 16 \<and>
   sessions_after gap_env 17 + 17 = 21 \<and> \<not> used gap_env 17 \<and>
   used gap_env 6 \<and>
   locate gap_env 0 [] =
     map (session_of gap_env) (filter (used gap_env) [1..<19])"
proof -
  have c: "cursor_day gap_env 16 \<in> {6, 0}"
    by (simp add: cursor_day_def gap_env_def)
  have s: "sessions_after gap_env 17 = 4" "sessions_after gap_env 6 = 3"
    by code_simp+
  have 6: "cursor_day gap_env 6 \<notin> {6, 0}" "session_of gap_env 6 \<noteq> []"
    by code_simp+
  note t = walk_counts_calendar_days[of gap_env 16]
  note t' = walk_counts_calendar_days[of gap_env 17]
  note t'' = walk_counts_calendar_days[of gap_env 6]
  from t c have "\<not> used gap_env 16" by blast
  moreover from t' s have "\<not> used gap_env 17" by simp
  moreover from t'' s 6 have "used gap_env 6" by simp
  moreover from t have
    "locate gap_env 0 [] = map (session_of gap_env) (filter (used gap_env) [1..<19])"
    by blast
  ultimately show ?thesis using c s by simp
qed

lemma card_used: "card {d \<in> {1..18}. used e d} = length (locate e 0 [])"
proof -
  have d: "distinct (filter (used e) [1..<19])"
    by (rule distinct_filter) (rule distinct_upt)
  have "{d \<in> {1..18}. used e d} = set (filter (used e) [1..<19])"
    by auto
  then have "card {d \<in> {1..18}. used e d} = length (filter (used e) [1..<19])"
    using distinct_card[OF d] by presburger
  also have "\<dots> = length (locate e 0 [])"
    unfolding locate_closed length_map ..
  finally show ?thesis .
qed

lemma locate_nonempty_maps: "m \<in> set (locate e 0 []) \<Longrightarrow> m \<noteq> []"
  unfolding locate_closed by (auto simp: used_def has_session_def simp del: upt_Suc)

lemma locate_distinct_keys: "m \<in> set (locate e 0 []) \<Longrightarrow> distinct (map fst m)"
  unfolding locate_closed by (auto simp: session_of_distinct simp del: upt_Suc)

text \<open>
  Claim C6, as stated, fails. \<open>daysAnalyzed\<close> is the length of \<open>dailyMaps\<close>, and a session
  enters \<open>dailyMaps\<close> when its map has an \<open>EQ\<close> row, before any row is checked. In
  \<open>idle_env\<close> the one session has one row, of volume 0, which the aggregator steps over:
  one day is analysed and no session has contributed a row.
\<close>

theorem daysAnalyzed_counterexample:
  "POST Number_int idle_env = Success 1 [] \<and>
   length (filter (contributes Number_int) (locate idle_env 0 [])) = 0"
proof -
  have l: "locate idle_env 0 [] = [[(''ABC'', eq_row ''ABC'' ''110'' ''90'' ''105'' ''0'' ''0'')]]"
    by (simp add: locate.simps idle_env_def walk_eval)
  have s: "skipped Number_int (eq_row ''ABC'' ''110'' ''90'' ''105'' ''0'' ''0'')"
    by (simp add: skipped_def eq_row_def safeNumber_def Number_int_def)
  have a: "aggregate Number_int (rev (locate idle_env 0 [])) = []"
    by (simp add: l aggregate_def fold_day_def fold_row_eq s)
  have "POST Number_int idle_env = Success 1 []"
    by (simp add: POST_eq a topStocks_def results_def Map_values_def Array_sort_def) (simp add: l)
  moreover have "length (filter (contributes Number_int) (locate idle_env 0 [])) = 0"
    by (simp add: l contributes_def s)
  ultimately show ?thesis by simp
qed

text \<open>
  Claim C6, amended. For every successful run \<open>daysAnalyzed\<close> is the number of distinct
  days the walk used, each a session retrieved with at least one \<open>EQ\<close> row in its map,
  whether or not any of its rows passes the check and is folded. It is at least 1 and at
  most 5, and the sessions that contribute a row are at most that many.
\<close>

theorem daysAnalyzed_counts_sessions:
  assumes "POST num e = Success n rows"
  shows "n = length (locate e 0 []) \<and> n = card {d \<in> {1..18}. used e d} \<and>
         (\<forall>m \<in> set (locate e 0 []). m \<noteq> []) \<and> 1 \<le> n \<and> n \<le> 5 \<and>
         length (filter (contributes num) (locate e 0 [])) \<le> n"
proof -
  from assms have ne: "locate e 0 [] \<noteq> []" and n: "n = length (locate e 0 [])"
    by (auto simp: POST_eq split: if_splits)
  from ne have "1 \<le> length (locate e 0 [])"
    by (cases "locate e 0 []") simp_all
  with n show ?thesis
    using length_locate_le[of e] locate_nonempty_maps[of _ e] card_used[of e]
    by auto
qed

theorem daysAnalyzed_counts_sessions_witness:
  "POST Number_int sample_env =
     Success 3 (topStocks 3 (aggregate Number_int (rev (locate sample_env 0 [])))) \<and>
   length (locate sample_env 0 []) = 3 \<and> card {d \<in> {1..18}. used sample_env d} = 3 \<and>
   length (filter (contributes Number_int) (locate sample_env 0 [])) \<le> 3"
proof -
  have l: "length (locate sample_env 0 []) = 3"
    unfolding length_locate by code_simp
  then have "locate sample_env 0 [] \<noteq> []"
    by auto
  then have p: "POST Number_int sample_env =
     Success 3 (topStocks 3 (aggregate Number_int (rev (locate sample_env 0 []))))"
    by (simp add: POST_eq l)
  from daysAnalyzed_counts_sessions[OF p] p l show ?thesis
    by simp
qed

subsection \<open>What a run of rows does to an accumulator\<close>

lemma days_fold: "days (fold (add_row num) rs a) = days a + length rs"
  by (induction rs arbitrary: a) (simp_all add: days_add_row)

lemma symbol_fold: "Aggregated.symbol (fold (add_row num) rs a) = Aggregated.symbol a"
  by (induction rs arbitrary: a) (simp_all add: symbol_add_row)

lemma firstClose_add_row:
  "firstClose (add_row num r a) =
     (if firstClose a = None then Some (safeNumber num (CLOSE r)) else firstClose a)"
  by (simp add: add_row_def Let_def)

lemma lastClose_add_row: "lastClose (add_row num r a) = Some (safeNumber num (CLOSE r))"
  by (simp add: add_row_def Let_def)

lemma firstClose_fold_keep:
  "firstClose a \<noteq> None \<Longrightarrow> firstClose (fold (add_row num) rs a) = firstClose a"
  by (induction rs arbitrary: a) (simp_all add: firstClose_add_row)

lemma firstClose_fold:
  "firstClose a = None \<Longrightarrow> rs \<noteq> [] \<Longrightarrow>
   firstClose (fold (add_row num) rs a) = Some (safeNumber num (CLOSE (hd rs)))"
  by (cases rs) (simp_all add: firstClose_fold_keep firstClose_add_row)

lemma lastClose_fold:
  "rs \<noteq> [] \<Longrightarrow> lastClose (fold (add_row num) rs a) = Some (safeNumber num (CLOSE (last rs)))"
  by (induction rs arbitrary: a rule: rev_induct) (simp_all add: lastClose_add_row)

lemma sumVolume_add_row:
  "sumVolume (add_row num r a) =
     js_add (sumVolume a) (Fin (value_of (safeNumber num (TOTTRDQTY r))))"
  using safeNumber_Fin[of num "TOTTRDQTY r"] by (auto simp: add_row_def Let_def)

lemma sumTradedValue_add_row:
  "sumTradedValue (add_row num r a) =
     js_add (sumTradedValue a) (Fin (value_of (safeNumber num (TOTTRDVAL r))))"
  using safeNumber_Fin[of num "TOTTRDVAL r"] by (auto simp: add_row_def Let_def)

lemma sumVolume_fold:
  "sumVolume (fold (add_row num) rs a) =
     fold (\<lambda>q y. js_add y (Fin q)) (map (\<lambda>r. value_of (safeNumber num (TOTTRDQTY r))) rs)
       (sumVolume a)"
  by (induction rs arbitrary: a) (simp_all add: sumVolume_add_row)

lemma sumTradedValue_fold:
  "sumTradedValue (fold (add_row num) rs a) =
     fold (\<lambda>q y. js_add y (Fin q)) (map (\<lambda>r. value_of (safeNumber num (TOTTRDVAL r))) rs)
       (sumTradedValue a)"
  by (induction rs arbitrary: a) (simp_all add: sumTradedValue_add_row)

lemma js_sum_grows:
  assumes "js_le (Fin 0) x" and "\<And>q. q \<in> set qs \<Longrightarrow> 0 \<le> q"
  shows "js_le x (fold (\<lambda>q y. js_add y (Fin q)) qs x)"
  using assms
proof (induction qs arbitrary: x)
  case Nil
  then have "x \<noteq> NaN" by auto
  then show ?case by (simp add: js_le_refl)
next
  case (Cons q qs)
  have step: "js_le x (js_add x (Fin q))"
    by (rule js_add_grows) (use Cons.prems in simp_all)
  with Cons.prems(1) have "js_le (Fin 0) (js_add x (Fin q))"
    by (rule js_le_trans)
  then have "js_le (js_add x (Fin q)) (fold (\<lambda>q y. js_add y (Fin q)) qs (js_add x (Fin q)))"
    by (rule Cons.IH) (use Cons.prems in simp)
  with step show ?case
    by (simp add: js_le_trans)
qed

lemma contribution_not_skipped: "contribution num k m = Some r \<Longrightarrow> \<not> skipped num r"
  by (auto simp: contribution_def split: option.splits if_splits)

lemma contributions_not_skipped: "r \<in> set (contributions num k ms) \<Longrightarrow> \<not> skipped num r"
  by (induction ms)
     (auto simp: contributions_Nil contributions_Cons contribution_not_skipped split: option.splits)

lemma not_skipped_volume: "\<not> skipped num r \<Longrightarrow> 0 < value_of (safeNumber num (TOTTRDQTY r))"
  unfolding not_skipped_iff using safeNumber_Fin[of num "TOTTRDQTY r"] by auto

lemma new_Aggregated_simps:
  "Aggregated.symbol (new_Aggregated k) = k" "sumVolume (new_Aggregated k) = Fin 0"
  "sumTradedValue (new_Aggregated k) = Fin 0" "sumMFVolume (new_Aggregated k) = Fin 0"
  "firstClose (new_Aggregated k) = None" "lastClose (new_Aggregated k) = None"
  "days (new_Aggregated k) = 0"
  by (simp_all add: new_Aggregated_def)

subsection \<open>The aggregator on the sessions of a run\<close>

lemmas row_eval = fold_row_def eq_row_def safeNumber_def Number_int_def mfm_def Let_def
  Map_get_def new_Aggregated_def overflow_small

lemma take_distinct_keys:
  "\<forall>m \<in> set (take i (rev (locate e 0 []))). distinct (map fst m)"
  using locate_distinct_keys[of _ e] by (auto dest: in_set_takeD)

lemma run_distinct_keys: "\<forall>m \<in> set (rev (locate e 0 [])). distinct (map fst m)"
  using locate_distinct_keys[of _ e] by auto

lemma sample_locate:
  "locate sample_env 0 [] =
     [[(''ABC'', eq_row ''ABC'' ''130'' ''110'' ''120'' ''1000'' ''120000'')],
      [(''ABC'', eq_row ''ABC'' ''120'' ''100'' ''118'' ''2000'' ''236000''),
       (''XYZ'', eq_row ''XYZ'' ''50'' ''40'' ''50'' ''300'' ''15000'')],
      [(''ABC'', eq_row ''ABC'' ''110'' ''90'' ''105'' ''1000'' ''105000''),
       (''XYZ'', eq_row ''XYZ'' ''50'' ''40'' ''50'' ''300'' ''15000'')]]"
  by (simp add: locate.simps sample_env_def walk_eval)

lemma sample_aggregate:
  "aggregate Number_int (rev (locate sample_env 0 [])) =
     [(''ABC'', \<lparr>Aggregated.symbol = ''ABC'', sumVolume = Fin 4000, sumTradedValue = Fin 461000,
                sumMFVolume = Fin 2100, firstClose = Some (Fin 105), lastClose = Some (Fin 120),
                days = 3\<rparr>),
      (''XYZ'', \<lparr>Aggregated.symbol = ''XYZ'', sumVolume = Fin 600, sumTradedValue = Fin 30000,
                sumMFVolume = Fin 600, firstClose = Some (Fin 50), lastClose = Some (Fin 50),
                days = 2\<rparr>)]"
  unfolding sample_locate by (simp add: aggregate_def fold_day_def row_eval)

lemma odd_locate:
  "locate odd_env 0 [] =
     [[(''A'', eq_row ''A'' ''110'' ''90'' ''105'' ''1000'' ''0''),
       (''N'', eq_row ''N'' ''110'' ''90'' ''105'' ''1000'' ''-2''),
       (''B'', eq_row ''B'' ''110'' ''90'' ''110'' ''1000'' ''0'')],
      [(''A'', eq_row ''A'' ''110'' ''90'' ''105'' ''1000'' ''0''),
       (''N'', eq_row ''N'' ''110'' ''90'' ''105'' ''1000'' ''-2''),
       (''B'', eq_row ''B'' ''110'' ''90'' ''110'' ''1000'' ''0'')],
      [(''A'', eq_row ''A'' ''110'' ''90'' ''105'' ''1000'' ''0''),
       (''N'', eq_row ''N'' ''110'' ''90'' ''105'' ''1000'' ''-2''),
       (''B'', eq_row ''B'' ''110'' ''90'' ''110'' ''1000'' ''0'')]]"
  by (simp add: locate.simps odd_env_def walk_eval)

text \<open>
  Claim C9, as stated, fails for \<open>sumTradedValue\<close>: the traded value of a row is not
  checked, and in \<open>odd_env\<close> the symbol \<open>N\<close> has a traded value of -2 in each session, so
  its sum goes from -2 after the oldest session to -4 after the next.
\<close>

theorem sumTradedValue_counterexample:
  "map_option sumTradedValue
     (Map_get (aggregate Number_int (take 1 (rev (locate odd_env 0 [])))) ''N'') = Some (Fin (- 2)) \<and>
   map_option sumTradedValue
     (Map_get (aggregate Number_int (take 2 (rev (locate odd_env 0 [])))) ''N'') = Some (Fin (- 4)) \<and>
   \<not> js_le (Fin (- 2)) (Fin (- 4))"
  unfolding odd_locate by (simp add: aggregate_def fold_day_def row_eval)

text \<open>
  Claim C9, amended. Take the accumulator of a symbol after the \<open>i\<close> oldest sessions of a
  run. Its \<open>days\<close> is at most \<open>i\<close> and at most the number of sessions fetched. After any
  further sessions the symbol still has an accumulator, with \<open>days\<close> and \<open>sumVolume\<close> no
  smaller; \<open>sumTradedValue\<close> is no smaller provided the rows folded for the symbol have
  a traded value of at least 0, which the handler does not check.
\<close>

theorem accumulator_grows:
  assumes "Map_get (aggregate num (take i (rev (locate e 0 [])))) symb = Some a" and "i \<le> j"
  shows "days a \<le> i \<and> days a \<le> length (locate e 0 []) \<and>
         (\<exists>a'. Map_get (aggregate num (take j (rev (locate e 0 [])))) symb = Some a' \<and>
               days a \<le> days a' \<and> js_le (sumVolume a) (sumVolume a') \<and>
               ((\<forall>r \<in> set (contributions num symb (take j (rev (locate e 0 [])))).
                   js_le (Fin 0) (safeNumber num (TOTTRDVAL r))) \<longrightarrow>
                js_le (sumTradedValue a) (sumTradedValue a')))"
proof -
  let ?ms = "rev (locate e 0 [])"
  let ?ci = "contributions num symb (take i ?ms)"
  let ?cj = "contributions num symb (take j ?ms)"
  define more where "more = contributions num symb (take (j - i) (drop i ?ms))"
  let ?vol = "\<lambda>r. value_of (safeNumber num (TOTTRDQTY r))"
  let ?val = "\<lambda>r. value_of (safeNumber num (TOTTRDVAL r))"
  from assms(1) have ne: "?ci \<noteq> []" and a: "a = fold (add_row num) ?ci (new_Aggregated symb)"
    by (auto simp: aggregate_get[OF take_distinct_keys] split: if_splits)
  have "take j ?ms = take i ?ms @ take (j - i) (drop i ?ms)"
    using assms(2) take_add[of i "j - i" ?ms] by simp
  then have cj: "?cj = ?ci @ more"
    by (simp add: more_def contributions_append)
  define a' where "a' = fold (add_row num) ?cj (new_Aggregated symb)"
  have a'_more: "a' = fold (add_row num) more a"
    by (simp add: a'_def cj a)
  have get: "Map_get (aggregate num (take j ?ms)) symb = Some a'"
    using ne by (simp add: aggregate_get[OF take_distinct_keys] cj a'_def)
  have days: "days a = length ?ci"
    by (simp add: a days_fold new_Aggregated_simps)
  have "length ?ci \<le> length (take i ?ms)"
    by (rule length_contributions)
  then have d1: "days a \<le> i" and d2: "days a \<le> length (locate e 0 [])"
    using days by simp_all
  have d3: "days a \<le> days a'"
    by (simp add: a'_more days_fold)
  have "js_le (Fin 0) (fold (\<lambda>q y. js_add y (Fin q)) (map ?vol ?ci) (Fin 0))"
    by (rule js_sum_grows)
       (use contributions_not_skipped[of _ num symb] not_skipped_volume[of num] in
          \<open>auto intro: less_imp_le\<close>)
  then have v0: "js_le (Fin 0) (sumVolume a)"
    by (simp add: a sumVolume_fold new_Aggregated_simps)
  have v: "js_le (sumVolume a) (sumVolume a')"
    unfolding a'_more sumVolume_fold
    by (rule js_sum_grows[OF v0])
       (use contributions_not_skipped[of _ num symb] not_skipped_volume[of num] in
          \<open>auto simp: more_def intro: less_imp_le\<close>)
  have t: "js_le (sumTradedValue a) (sumTradedValue a')"
    if all: "\<forall>r \<in> set ?cj. js_le (Fin 0) (safeNumber num (TOTTRDVAL r))"
  proof -
    have nonneg: "0 \<le> ?val r" if "r \<in> set ?cj" for r
    proof -
      from that all have "js_le (Fin 0) (safeNumber num (TOTTRDVAL r))"
        by simp
      then show ?thesis
        using safeNumber_Fin[of num "TOTTRDVAL r"] by auto
    qed
    have "js_le (Fin 0) (fold (\<lambda>q y. js_add y (Fin q)) (map ?val ?ci) (Fin 0))"
      by (rule js_sum_grows) (use nonneg in \<open>auto simp: cj\<close>)
    then have t0: "js_le (Fin 0) (sumTradedValue a)"
      by (simp add: a sumTradedValue_fold new_Aggregated_simps)
    show ?thesis
      unfolding a'_more sumTradedValue_fold
      by (rule js_sum_grows[OF t0]) (use nonneg in \<open>auto simp: cj\<close>)
  qed
  from get d1 d2 d3 v t show ?thesis
    by blast
qed

theorem accumulator_grows_witness:
  "Map_get (aggregate Number_int (take 1 (rev (locate sample_env 0 [])))) ''ABC'' =
     Some \<lparr>Aggregated.symbol = ''ABC'', sumVolume = Fin 1000, sumTradedValue = Fin 105000,
           sumMFVolume = Fin 500, firstClose = Some (Fin 105), lastClose = Some (Fin 105),
           days = 1\<rparr> \<and>
   (1 :: nat) \<le> 2 \<and>
   (\<exists>a'. Map_get (aggregate Number_int (take 2 (rev (locate sample_env 0 [])))) ''ABC'' = Some a' \<and>
         1 \<le> days a' \<and> js_le (Fin 1000) (sumVolume a') \<and> js_le (Fin 105000) (sumTradedValue a'))"
proof -
  let ?a = "\<lparr>Aggregated.symbol = ''ABC'', sumVolume = Fin 1000, sumTradedValue = Fin 105000,
           sumMFVolume = Fin 500, firstClose = Some (Fin 105), lastClose = Some (Fin 105),
           days = 1\<rparr>"
  have g: "Map_get (aggregate Number_int (take 1 (rev (locate sample_env 0 [])))) ''ABC'' = Some ?a"
    unfolding sample_locate by (simp add: aggregate_def fold_day_def row_eval)
  have c: "contributions Number_int ''ABC'' (take 2 (rev (locate sample_env 0 []))) =
     [eq_row ''ABC'' ''110'' ''90'' ''105'' ''1000'' ''105000'',
      eq_row ''ABC'' ''120'' ''100'' ''118'' ''2000'' ''236000'']"
    unfolding sample_locate
    by (simp add: contributions_def contribution_def skipped_def row_eval)
  have v: "\<forall>r \<in> set (contributions Number_int ''ABC'' (take 2 (rev (locate sample_env 0 [])))).
             js_le (Fin 0) (safeNumber Number_int (TOTTRDVAL r))"
    unfolding c by (simp add: row_eval)
  have le: "(1 :: nat) \<le> 2"
    by simp
  from accumulator_grows[OF g le] v g show ?thesis
    by auto
qed

subsection \<open>The money flow of a symbol\<close>

lemma bad_close_locate:
  "locate bad_close_env 0 [] =
     [[(''BAD'', eq_row ''BAD'' ''110'' ''90'' ''-'' ''1000'' ''100000'')],
      [(''BAD'', eq_row ''BAD'' ''110'' ''90'' ''-'' ''1000'' ''100000'')],
      [(''BAD'', eq_row ''BAD'' ''110'' ''90'' ''-'' ''1000'' ''100000'')]]"
  by (simp add: locate.simps bad_close_env_def walk_eval)

lemma bad_close_aggregate:
  "aggregate Number_int (rev (locate bad_close_env 0 [])) =
     [(''BAD'', \<lparr>Aggregated.symbol = ''BAD'', sumVolume = Fin 3000, sumTradedValue = Fin 300000,
                sumMFVolume = Fin (- 30000), firstClose = Some (Fin 0), lastClose = Some (Fin 0),
                days = 3\<rparr>)]"
  unfolding bad_close_locate by (simp add: aggregate_def fold_day_def row_eval)

text \<open>
  Claim C1 does not hold of the handler. The row check reads volume, high and low and not the
  close, and a close that does not convert to a number is read as 0. In \<open>bad_close_env\<close>
  the symbol \<open>BAD\<close> has high 110, low 90 and a dash for the close in three sessions: each
  session gives a multiplier of ((0 - 90) - (110 - 0)) / 20 = -10, against the comment
  beside the multiplier in the source, which says it lies between -1 and 1, and the run
  returns the symbol with a volume of 3000 and a \<open>cmf\<close> of -10.
\<close>

theorem cmf_out_of_range_on_bad_close:
  "POST Number_int bad_close_env =
     Success 3
       [\<lparr>symbol = ''BAD'', cmf = Fin (- 10), totalTradedValue = Fin 300000,
         totalVolume = Fin 3000, daysCount = 3, priceChange5dPercent = Fin 0\<rparr>] \<and>
   mfm (Fin 110) (Fin 90) (safeNumber Number_int (Some ''-'')) = Fin (- 10) \<and>
   js_gt (Fin 3000) (Fin 0) \<and> \<not> js_le (Fin (- 1)) (Fin (- 10))"
proof -
  have "POST Number_int bad_close_env =
     Success 3
       [\<lparr>symbol = ''BAD'', cmf = Fin (- 10), totalTradedValue = Fin 300000,
         totalVolume = Fin 3000, daysCount = 3, priceChange5dPercent = Fin 0\<rparr>]"
    unfolding POST_eq bad_close_aggregate
    by (simp add: bad_close_locate topStocks_def results_def Map_values_def qualifies_def
          to_result_def Array_sort_def truthy_def overflow_small)
  moreover have "mfm (Fin 110) (Fin 90) (safeNumber Number_int (Some ''-'')) = Fin (- 10)"
    by (simp add: safeNumber_def Number_int_def mfm_Fin overflow_small)
  ultimately show ?thesis by simp
qed

text \<open>
  What does hold: when the close of every row folded for a symbol lies between its low and
  its high, no high is beyond the largest double, and the summed volume of the symbol has
  not overflowed, the \<open>cmf\<close> of the symbol lies between -1 and 1.
\<close>

lemma mfm_bounded:
  assumes "l \<le> c" and "c \<le> h" and "0 < l" and "h \<le> MAX_VALUE"
  shows "\<exists>m. mfm (Fin h) (Fin l) (Fin c) = Fin m \<and> \<bar>m\<bar> \<le> 1"
proof (cases "h = l")
  case True
  then show ?thesis by (simp add: mfm_Fin)
next
  case False
  define up where "up = c - l"
  define down where "down = h - c"
  define range where "range = h - l"
  have pos: "0 < range"
    using False assms by (simp add: range_def)
  have r1: "js_sub (Fin c) (Fin l) = Fin up" and r2: "js_sub (Fin h) (Fin c) = Fin down"
    and r3: "js_sub (Fin h) (Fin l) = Fin range"
    using assms by (simp_all add: overflow_in_range up_def down_def range_def)
  have n: "\<bar>up - down\<bar> \<le> range"
    using assms by (simp add: abs_le_iff up_def down_def range_def)
  then have r4: "js_sub (Fin up) (Fin down) = Fin (up - down)"
    using assms by (simp add: overflow_in_range range_def)
  from n pos have q: "\<bar>(up - down) / range\<bar> \<le> 1"
    by (simp add: divide_le_eq)
  then have "\<bar>(up - down) / range\<bar> \<le> MAX_VALUE"
    using MAX_VALUE_large by simp
  then have r5: "js_div (Fin (up - down)) (Fin range) = Fin ((up - down) / range)"
    using pos by (simp add: overflow_in_range)
  from False have "mfm (Fin h) (Fin l) (Fin c) = Fin ((up - down) / range)"
    by (simp only: mfm_Fin if_False r1 r2 r3 r4 r5)
  with q show ?thesis by blast
qed

lemma PInf_stays:
  "(\<And>q. q \<in> set qs \<Longrightarrow> 0 \<le> q) \<Longrightarrow> fold (\<lambda>q y. js_add y (Fin q)) qs PInf = PInf"
  by (induction qs) simp_all

lemma sumMFVolume_add_row:
  "sumMFVolume (add_row num r a) =
     js_add (sumMFVolume a)
       (js_mul (mfm (safeNumber num (HIGH r)) (safeNumber num (LOW r)) (safeNumber num (CLOSE r)))
          (safeNumber num (TOTTRDQTY r)))"
  by (simp add: add_row_def Let_def)

lemma money_flow_within_volume:
  assumes "sumVolume a = Fin V" and "sumMFVolume a = Fin M" and "\<bar>M\<bar> \<le> V"
    and "\<And>r. r \<in> set rs \<Longrightarrow>
           \<not> skipped num r \<and>
           js_le (safeNumber num (LOW r)) (safeNumber num (CLOSE r)) \<and>
           js_le (safeNumber num (CLOSE r)) (safeNumber num (HIGH r)) \<and>
           js_le (safeNumber num (HIGH r)) (Fin MAX_VALUE)"
    and "isFinite (sumVolume (fold (add_row num) rs a))"
  shows "\<exists>V' M'. sumVolume (fold (add_row num) rs a) = Fin V' \<and>
                 sumMFVolume (fold (add_row num) rs a) = Fin M' \<and> \<bar>M'\<bar> \<le> V' \<and> V \<le> V'"
  using assms
proof (induction rs arbitrary: a V M)
  case Nil
  then show ?case by simp
next
  case (Cons r rs)
  obtain h l c q where hlc: "safeNumber num (HIGH r) = Fin h" "safeNumber num (LOW r) = Fin l"
      "safeNumber num (CLOSE r) = Fin c" "safeNumber num (TOTTRDQTY r) = Fin q"
    using safeNumber_Fin by meson
  from Cons.prems(4)[of r] hlc have row: "0 < q" "0 < l" "l \<le> c" "c \<le> h" "h \<le> MAX_VALUE"
    by (simp_all add: not_skipped_iff)
  from Cons.prems(1,3) have V: "0 \<le> V" by simp
  let ?a1 = "add_row num r a"
  have v1: "sumVolume ?a1 = overflow (V + q)"
    by (simp add: sumVolume_add_row hlc Cons.prems(1))
  have nonneg: "0 \<le> value_of (safeNumber num (TOTTRDQTY r'))" if "r' \<in> set rs" for r'
    using Cons.prems(4)[of r'] that not_skipped_volume[of num r'] by (simp add: less_imp_le)
  have fin1: "overflow (V + q) = Fin (V + q)"
  proof (rule ccontr)
    assume "overflow (V + q) \<noteq> Fin (V + q)"
    with overflow_cases[of "V + q"] V row(1) have "overflow (V + q) = PInf"
      by auto
    moreover have "fold (\<lambda>q y. js_add y (Fin q))
        (map (\<lambda>r. value_of (safeNumber num (TOTTRDQTY r))) rs) PInf = PInf"
      by (rule PInf_stays) (use nonneg in auto)
    ultimately have "sumVolume (fold (add_row num) rs ?a1) = PInf"
      using v1 by (simp add: sumVolume_fold)
    with Cons.prems(5) show False by simp
  qed
  then have bound: "V + q \<le> MAX_VALUE"
    by (simp add: overflow_eq_Fin_iff abs_le_iff)
  from mfm_bounded[OF row(3,4,2,5)] obtain m where
    m: "mfm (Fin h) (Fin l) (Fin c) = Fin m" "\<bar>m\<bar> \<le> 1" by blast
  have mq: "\<bar>m * q\<bar> \<le> q"
    using m(2) row(1) mult_right_mono[of "\<bar>m\<bar>" 1 q] by (simp add: abs_mult)
  have "\<bar>m * q\<bar> \<le> MAX_VALUE"
    using mq bound V by linarith
  then have mfv: "overflow (m * q) = Fin (m * q)"
    by (rule overflow_in_range)
  have M1: "\<bar>M + m * q\<bar> \<le> V + q"
    using Cons.prems(3) mq by linarith
  then have "\<bar>M + m * q\<bar> \<le> MAX_VALUE"
    using bound by linarith
  then have m1: "sumMFVolume ?a1 = Fin (M + m * q)"
    by (simp add: sumMFVolume_add_row hlc m(1) mfv Cons.prems(2) overflow_in_range)
  have "\<exists>V' M'. sumVolume (fold (add_row num) rs ?a1) = Fin V' \<and>
                 sumMFVolume (fold (add_row num) rs ?a1) = Fin M' \<and> \<bar>M'\<bar> \<le> V' \<and> V + q \<le> V'"
  proof (rule Cons.IH[OF _ m1 M1])
    show "sumVolume ?a1 = Fin (V + q)"
      using v1 fin1 by simp
    show "isFinite (sumVolume (fold (add_row num) rs ?a1))"
      using Cons.prems(5) by simp
  qed (use Cons.prems(4) in simp)
  with row(1) show ?case
    by (auto intro: order_trans)
qed

lemma cmf_in_range_when_close_in_range:
  assumes "Map_get (aggregate num (rev (locate e 0 []))) symb = Some a"
    and "\<forall>r \<in> set (contributions num symb (rev (locate e 0 []))).
           js_le (safeNumber num (LOW r)) (safeNumber num (CLOSE r)) \<and>
           js_le (safeNumber num (CLOSE r)) (safeNumber num (HIGH r)) \<and>
           js_le (safeNumber num (HIGH r)) (Fin MAX_VALUE)"
    and "isFinite (sumVolume a)"
  shows "\<exists>c. cmf (to_result a) = Fin c \<and> - 1 \<le> c \<and> c \<le> 1"
proof -
  let ?cs = "contributions num symb (rev (locate e 0 []))"
  from assms(1) have ne: "?cs \<noteq> []" and a: "a = fold (add_row num) ?cs (new_Aggregated symb)"
    by (auto simp: aggregate_get[OF run_distinct_keys] split: if_splits)
  have "\<exists>V' M'. sumVolume (fold (add_row num) ?cs (new_Aggregated symb)) = Fin V' \<and>
           sumMFVolume (fold (add_row num) ?cs (new_Aggregated symb)) = Fin M' \<and>
           \<bar>M'\<bar> \<le> V' \<and> 0 \<le> V'"
  proof (rule money_flow_within_volume)
    show "sumVolume (new_Aggregated symb) = Fin 0" "sumMFVolume (new_Aggregated symb) = Fin 0"
      by (simp_all add: new_Aggregated_simps)
    show "isFinite (sumVolume (fold (add_row num) ?cs (new_Aggregated symb)))"
      using assms(3) by (simp add: a)
  qed (use assms(2) contributions_not_skipped[of _ num symb] in auto)
  then obtain V M where VM: "sumVolume a = Fin V" "sumMFVolume a = Fin M" "\<bar>M\<bar> \<le> V"
    by (auto simp: a)
  show ?thesis
  proof (cases "V = 0")
    case True
    with VM show ?thesis by (simp add: to_result_def Let_def)
  next
    case False
    with VM(3) have pos: "0 < V" by simp
    with VM(3) have q: "\<bar>M / V\<bar> \<le> 1"
      by (simp add: divide_le_eq)
    then have "overflow (M / V) = Fin (M / V)"
      using MAX_VALUE_large by (intro overflow_in_range) simp
    with False have "cmf (to_result a) = Fin (M / V)"
      by (simp add: to_result_def Let_def VM)
    moreover from q have "- 1 \<le> M / V \<and> M / V \<le> 1"
      unfolding abs_le_iff by linarith
    ultimately show ?thesis by blast
  qed
qed

subsection \<open>The ranker\<close>

lemma mset_insert_by: "mset (insert_by cmp x ys) = add_mset x (mset ys)"
  by (induction ys) simp_all

lemma mset_Array_sort: "mset (Array_sort cmp xs) = mset xs"
  by (induction xs) (simp_all add: Array_sort_def mset_insert_by)

lemma set_Array_sort: "set (Array_sort cmp xs) = set xs"
  using mset_Array_sort[of cmp xs] by (metis set_mset_mset)

lemma length_Array_sort: "length (Array_sort cmp xs) = length xs"
  using mset_Array_sort[of cmp xs] by (metis size_mset)

lemma set_insert_by: "set (insert_by cmp x ys) = insert x (set ys)"
  using mset_insert_by[of cmp x ys] by (metis set_mset_add_mset_insert set_mset_mset)

lemma sorted_insert_by:
  fixes f :: "'a \<Rightarrow> real"
  assumes "\<And>a b. a \<in> insert x (set ys) \<Longrightarrow> b \<in> insert x (set ys) \<Longrightarrow>
             js_gt (cmp a b) (Fin 0) \<longleftrightarrow> f a < f b"
    and "sorted_wrt (\<lambda>a b. f b \<le> f a) ys"
  shows "sorted_wrt (\<lambda>a b. f b \<le> f a) (insert_by cmp x ys)"
  using assms
proof (induction ys)
  case Nil
  show ?case by simp
next
  case (Cons y ys)
  have c: "js_gt (cmp x y) (Fin 0) \<longleftrightarrow> f x < f y"
    by (rule Cons.prems(1)) simp_all
  show ?case
  proof (cases "f x < f y")
    case True
    have "sorted_wrt (\<lambda>a b. f b \<le> f a) (insert_by cmp x ys)"
      using Cons.prems by (intro Cons.IH) auto
    with True c Cons.prems(2) show ?thesis
      by (auto simp: set_insert_by)
  next
    case False
    with c Cons.prems(2) show ?thesis
      by (auto simp: not_less intro: order_trans)
  qed
qed

lemma sorted_Array_sort:
  fixes f :: "'a \<Rightarrow> real"
  assumes "\<And>a b. a \<in> set xs \<Longrightarrow> b \<in> set xs \<Longrightarrow> js_gt (cmp a b) (Fin 0) \<longleftrightarrow> f a < f b"
  shows "sorted_wrt (\<lambda>a b. f b \<le> f a) (Array_sort cmp xs)"
  using assms
proof (induction xs)
  case Nil
  show ?case by (simp add: Array_sort_def)
next
  case (Cons x xs)
  have s: "sorted_wrt (\<lambda>a b. f b \<le> f a) (Array_sort cmp xs)"
    using Cons.prems by (intro Cons.IH) auto
  have "sorted_wrt (\<lambda>a b. f b \<le> f a) (insert_by cmp x (Array_sort cmp xs))"
    using Cons.prems by (intro sorted_insert_by s) (auto simp: set_Array_sort)
  then show ?case by (simp add: Array_sort_def)
qed

lemma aggregate_entry:
  assumes "\<forall>m \<in> set ms. distinct (map fst m)" and "(k, a) \<in> set (aggregate num ms)"
  shows "contributions num k ms \<noteq> [] \<and>
         a = fold (add_row num) (contributions num k ms) (new_Aggregated k)"
proof -
  from assms(2) have "Map_get (aggregate num ms) k = Some a"
    by (simp add: Map_get_Some_iff[OF aggregate_distinct])
  then show ?thesis
    by (auto simp: aggregate_get[OF assms(1)] split: if_splits)
qed

lemma aggregate_entry_symbol:
  assumes "\<forall>m \<in> set ms. distinct (map fst m)" and "(k, a) \<in> set (aggregate num ms)"
  shows "Aggregated.symbol a = k"
  using aggregate_entry[OF assms] by (simp add: symbol_fold new_Aggregated_simps)

lemma to_result_fields:
  "StockRow.symbol (to_result a) = Aggregated.symbol a"
  "totalTradedValue (to_result a) = sumTradedValue a"
  "totalVolume (to_result a) = sumVolume a"
  "daysCount (to_result a) = days a"
  by (simp_all add: to_result_def Let_def)

lemma topStocks_subset: "set (topStocks n agg) \<subseteq> set (results n agg)"
  using set_take_subset[of 10 "Array_sort compareFn (results n agg)"]
  by (simp add: topStocks_def set_Array_sort)

lemma results_entry:
  "x \<in> set (results n agg) \<Longrightarrow> \<exists>k a. (k, a) \<in> set agg \<and> qualifies n a \<and> x = to_result a"
  by (fastforce simp: results_def Map_values_def)

lemma POST_Success:
  "POST num e = Success n rows \<Longrightarrow>
   n = length (locate e 0 []) \<and> rows = topStocks n (aggregate num (rev (locate e 0 [])))"
  by (auto simp: POST_eq split: if_splits)

text \<open>
  Claim C3. In a successful run every returned row has a day count of at least
  max(3, min(5, n)), where n is the number of sessions retrieved, and a symbol whose
  accumulator has fewer days than that is in no returned row.
\<close>

theorem topStocks_meet_floor:
  assumes "POST num e = Success n rows"
  shows "n = length (locate e 0 []) \<and>
         (\<forall>x \<in> set rows. max 3 (min 5 n) \<le> daysCount x) \<and>
         (\<forall>symb a. Map_get (aggregate num (rev (locate e 0 []))) symb = Some a \<and>
                    days a < max 3 (min 5 n) \<longrightarrow> symb \<notin> StockRow.symbol ` set rows)"
proof -
  let ?agg = "aggregate num (rev (locate e 0 []))"
  from POST_Success[OF assms] have n: "n = length (locate e 0 [])" and rows: "rows = topStocks n ?agg"
    by simp_all
  have entry: "\<exists>k a. (k, a) \<in> set ?agg \<and> qualifies n a \<and> x = to_result a" if "x \<in> set rows" for x
    using that topStocks_subset[of n ?agg] results_entry[of x n ?agg] by (auto simp: rows)
  have floor: "max 3 (min 5 n) \<le> daysCount x" if "x \<in> set rows" for x
    using entry[OF that] by (auto simp: to_result_fields qualifies_def)
  have absent: "symb \<notin> StockRow.symbol ` set rows"
    if g: "Map_get ?agg symb = Some a" and d: "days a < max 3 (min 5 n)" for symb a
  proof
    assume "symb \<in> StockRow.symbol ` set rows"
    then obtain x where x: "x \<in> set rows" "StockRow.symbol x = symb" by auto
    from entry[OF x(1)] obtain k a' where
      e: "(k, a') \<in> set ?agg" "qualifies n a'" "x = to_result a'" by blast
    have "Aggregated.symbol a' = k"
      by (rule aggregate_entry_symbol[OF run_distinct_keys e(1)])
    with x(2) e(3) have "k = symb" by (simp add: to_result_fields)
    with e(1) have "Map_get ?agg symb = Some a'"
      by (simp add: Map_get_Some_iff[OF aggregate_distinct])
    with g have "a' = a" by simp
    with e(2) have "max 3 (min 5 n) \<le> days a"
      unfolding qualifies_def by blast
    with d show False using leD by blast
  qed
  from n floor absent show ?thesis by blast
qed

theorem topStocks_meet_floor_witness:
  "POST Number_int sample_env =
     Success 3
       [\<lparr>symbol = ''ABC'', cmf = Fin (21 / 40), totalTradedValue = Fin 461000,
         totalVolume = Fin 4000, daysCount = 3, priceChange5dPercent = Fin (100 / 7)\<rparr>] \<and>
   max 3 (min 5 (3 :: nat)) = 3 \<and>
   Map_get (aggregate Number_int (rev (locate sample_env 0 []))) ''XYZ'' =
     Some \<lparr>Aggregated.symbol = ''XYZ'', sumVolume = Fin 600, sumTradedValue = Fin 30000,
           sumMFVolume = Fin 600, firstClose = Some (Fin 50), lastClose = Some (Fin 50),
           days = 2\<rparr> \<and>
   ''XYZ'' \<notin> StockRow.symbol `
     set [\<lparr>symbol = ''ABC'', cmf = Fin (21 / 40), totalTradedValue = Fin 461000,
           totalVolume = Fin 4000, daysCount = 3, priceChange5dPercent = Fin (100 / 7)\<rparr>]"
proof -
  have p: "POST Number_int sample_env =
     Success 3
       [\<lparr>symbol = ''ABC'', cmf = Fin (21 / 40), totalTradedValue = Fin 461000,
         totalVolume = Fin 4000, daysCount = 3, priceChange5dPercent = Fin (100 / 7)\<rparr>]"
    unfolding POST_eq sample_aggregate
    by (simp add: sample_locate topStocks_def results_def Map_values_def qualifies_def
          to_result_def Array_sort_def truthy_def overflow_small)
  have g: "Map_get (aggregate Number_int (rev (locate sample_env 0 []))) ''XYZ'' =
     Some \<lparr>Aggregated.symbol = ''XYZ'', sumVolume = Fin 600, sumTradedValue = Fin 30000,
           sumMFVolume = Fin 600, firstClose = Some (Fin 50), lastClose = Some (Fin 50),
           days = 2\<rparr>"
    unfolding sample_aggregate by (simp add: Map_get_def)
  from topStocks_meet_floor[OF p] g p show ?thesis
    by simp
qed

subsection \<open>Closes and the order of the sessions\<close>

lemma rev_locate_oldest_first: "rev (locate e 0 []) = oldest_first e"
  by (simp only: locate_closed oldest_first_def rev_map rev_filter)

lemma priceChange_to_result:
  "firstClose a = Some f \<Longrightarrow> lastClose a = Some l \<Longrightarrow>
   priceChange5dPercent (to_result a) = change_percent f l"
  by (simp add: to_result_def Let_def change_percent_def)

lemma closes_of_accumulator:
  assumes "Map_get (aggregate num (oldest_first e)) symb = Some a"
  shows "contributions num symb (oldest_first e) \<noteq> [] \<and>
         firstClose a = Some (safeNumber num (CLOSE (hd (contributions num symb (oldest_first e))))) \<and>
         lastClose a = Some (safeNumber num (CLOSE (last (contributions num symb (oldest_first e)))))"
proof -
  let ?cs = "contributions num symb (oldest_first e)"
  have d: "\<forall>m \<in> set (oldest_first e). distinct (map fst m)"
    using run_distinct_keys[of e] by (simp only: rev_locate_oldest_first)
  from assms have ne: "?cs \<noteq> []"
    and a: "a = fold (add_row num) ?cs (new_Aggregated symb)"
    by (auto simp: aggregate_get[OF d] split: if_splits)
  have "firstClose a = Some (safeNumber num (CLOSE (hd ?cs)))"
    unfolding a by (rule firstClose_fold[OF _ ne]) (simp add: new_Aggregated_simps)
  moreover have "lastClose a = Some (safeNumber num (CLOSE (last ?cs)))"
    unfolding a by (rule lastClose_fold[OF ne])
  ultimately show ?thesis
    using ne by blast
qed

text \<open>
  Claim C8. The walk lists its sessions most recent first and the handler folds them in
  the reverse order, which is the order of the dates, oldest first: the rows of a
  successful run are the ranked rows of the accumulators folded in that order. For every
  symbol with an accumulator, \<open>firstClose\<close> is the close of its row in the oldest session
  that contributed a row of the symbol and \<open>lastClose\<close> the close of its row in the most
  recent such session; and the price change of every returned row is the change from the
  first of these two closes to the second.
\<close>

theorem closes_in_chronological_order:
  assumes "POST num e = Success n rows"
  shows "rev (locate e 0 []) = oldest_first e \<and>
         sorted_wrt (>) (filter (used e) (rev [1..<19])) \<and>
         rows = topStocks n (aggregate num (oldest_first e)) \<and>
         (\<forall>symb a.
            Map_get (aggregate num (oldest_first e)) symb = Some a \<longrightarrow>
              contributions num symb (oldest_first e) \<noteq> [] \<and>
              firstClose a =
                Some (safeNumber num (CLOSE (hd (contributions num symb (oldest_first e))))) \<and>
              lastClose a =
                Some (safeNumber num (CLOSE (last (contributions num symb (oldest_first e)))))) \<and>
         (\<forall>x \<in> set rows.
            contributions num (StockRow.symbol x) (oldest_first e) \<noteq> [] \<and>
            priceChange5dPercent x =
              change_percent
                (safeNumber num
                   (CLOSE (hd (contributions num (StockRow.symbol x) (oldest_first e)))))
                (safeNumber num
                   (CLOSE (last (contributions num (StockRow.symbol x) (oldest_first e))))))"
proof -
  let ?agg = "aggregate num (oldest_first e)"
  have d: "\<forall>m \<in> set (oldest_first e). distinct (map fst m)"
    using run_distinct_keys[of e] by (simp only: rev_locate_oldest_first)
  have sorted: "sorted_wrt (>) (filter (used e) (rev [1..<19]))"
    using locate_days_sorted[of e]
    by (simp only: locate_days_closed rev_filter[symmetric] sorted_wrt_rev)
  from POST_Success[OF assms] have rows: "rows = topStocks n ?agg"
    by (simp only: rev_locate_oldest_first)
  have row: "contributions num (StockRow.symbol x) (oldest_first e) \<noteq> [] \<and>
      priceChange5dPercent x =
        change_percent
          (safeNumber num (CLOSE (hd (contributions num (StockRow.symbol x) (oldest_first e)))))
          (safeNumber num (CLOSE (last (contributions num (StockRow.symbol x) (oldest_first e)))))"
    if "x \<in> set rows" for x
  proof -
    from that rows topStocks_subset[of n ?agg] have "x \<in> set (results n ?agg)"
      by auto
    from results_entry[OF this] obtain k a where
      e: "(k, a) \<in> set ?agg" "x = to_result a" by blast
    have "Aggregated.symbol a = k"
      by (rule aggregate_entry_symbol[OF d e(1)])
    then have k: "StockRow.symbol (to_result a) = k"
      by (simp add: to_result_fields)
    from e(1) have "Map_get ?agg k = Some a"
      by (simp add: Map_get_Some_iff[OF aggregate_distinct])
    from closes_of_accumulator[OF this] show ?thesis
      unfolding e(2) k by (auto simp: priceChange_to_result)
  qed
  from sorted rows row show ?thesis
    using rev_locate_oldest_first[of e] closes_of_accumulator[of num e] by blast
qed

theorem closes_in_chronological_order_witness:
  "POST Number_int sample_env =
     Success 3
       [\<lparr>symbol = ''ABC'', cmf = Fin (21 / 40), totalTradedValue = Fin 461000,
         totalVolume = Fin 4000, daysCount = 3, priceChange5dPercent = Fin (100 / 7)\<rparr>] \<and>
   filter (used sample_env) (rev [1..<19]) = [7, 5, 3] \<and>
   contributions Number_int ''ABC'' (oldest_first sample_env) =
     [eq_row ''ABC'' ''110'' ''90'' ''105'' ''1000'' ''105000'',
      eq_row ''ABC'' ''120'' ''100'' ''118'' ''2000'' ''236000'',
      eq_row ''ABC'' ''130'' ''110'' ''120'' ''1000'' ''120000''] \<and>
   Fin (100 / 7) = change_percent (Fin 105) (Fin 120) \<and>
   Map_get (aggregate Number_int (oldest_first sample_env)) ''XYZ'' =
     Some \<lparr>Aggregated.symbol = ''XYZ'', sumVolume = Fin 600, sumTradedValue = Fin 30000,
           sumMFVolume = Fin 600, firstClose = Some (Fin 50), lastClose = Some (Fin 50),
           days = 2\<rparr>"
proof -
  let ?x = "\<lparr>symbol = ''ABC'', cmf = Fin (21 / 40), totalTradedValue = Fin 461000,
         totalVolume = Fin 4000, daysCount = 3, priceChange5dPercent = Fin (100 / 7)\<rparr>"
  have p: "POST Number_int sample_env = Success 3 [?x]"
    unfolding POST_eq sample_aggregate
    by (simp add: sample_locate topStocks_def results_def Map_values_def qualifies_def
          to_result_def Array_sort_def truthy_def overflow_small)
  note t = closes_in_chronological_order[OF p]
  from t have o: "oldest_first sample_env = rev (locate sample_env 0 [])"
    by simp
  have d: "filter (used sample_env) (rev [1..<19]) = [7, 5, 3]"
    by code_simp
  have c: "contributions Number_int ''ABC'' (oldest_first sample_env) =
     [eq_row ''ABC'' ''110'' ''90'' ''105'' ''1000'' ''105000'',
      eq_row ''ABC'' ''120'' ''100'' ''118'' ''2000'' ''236000'',
      eq_row ''ABC'' ''130'' ''110'' ''120'' ''1000'' ''120000'']"
    unfolding o sample_locate
    by (simp add: contributions_def contribution_def skipped_def row_eval)
  from t have "priceChange5dPercent ?x =
      change_percent
        (safeNumber Number_int
           (CLOSE (hd (contributions Number_int (StockRow.symbol ?x) (oldest_first sample_env)))))
        (safeNumber Number_int
           (CLOSE (last (contributions Number_int (StockRow.symbol ?x) (oldest_first sample_env)))))"
    by simp
  then have pc: "Fin (100 / 7) = change_percent (Fin 105) (Fin 120)"
    by (simp add: c eq_row_def safeNumber_def Number_int_def)
  have g: "Map_get (aggregate Number_int (oldest_first sample_env)) ''XYZ'' =
     Some \<lparr>Aggregated.symbol = ''XYZ'', sumVolume = Fin 600, sumTradedValue = Fin 30000,
           sumMFVolume = Fin 600, firstClose = Some (Fin 50), lastClose = Some (Fin 50),
           days = 2\<rparr>"
    unfolding o sample_aggregate by (simp add: Map_get_def)
  from p d c pc g show ?thesis
    by simp
qed

subsection \<open>The order of the returned rows\<close>

lemma compareFn_score: "compareFn x y = js_sub (score y) (score x)"
  by (simp add: compareFn_def score_def Let_def)

lemma js_gt_overflow: "js_gt (overflow d) (Fin 0) \<longleftrightarrow> 0 < d"
  using overflow_cases[of d] by (auto simp: js_gt_def)

text \<open>
  Claim C7 does not hold of the handler. The comment above the sort says the rows are
  ranked by CMF, boosted by liquidity, and the comparator subtracts one score from the
  other; but the logarithm in the score is taken without a check of its argument, unlike
  the divisions of the handler, and a qualifying symbol whose traded values sum to less
  than -1 gets the score NaN. The comparator then answers NaN for every pair with that
  symbol and the sort leaves such pairs as they stand. In \<open>odd_env\<close> the symbol \<open>N\<close> sits
  between \<open>A\<close> and \<open>B\<close>, every comparison the sort makes is with \<open>N\<close>, and the run returns
  \<open>A\<close>, with score 1/2, before \<open>B\<close>, with score 1.
\<close>

theorem rows_out_of_order_on_nan_score:
  "POST Number_int odd_env =
     Success 3
       [\<lparr>symbol = ''A'', cmf = Fin (1 / 2), totalTradedValue = Fin 0, totalVolume = Fin 3000,
         daysCount = 3, priceChange5dPercent = Fin 0\<rparr>,
        \<lparr>symbol = ''N'', cmf = Fin (1 / 2), totalTradedValue = Fin (- 6), totalVolume = Fin 3000,
         daysCount = 3, priceChange5dPercent = Fin 0\<rparr>,
        \<lparr>symbol = ''B'', cmf = Fin 1, totalTradedValue = Fin 0, totalVolume = Fin 3000,
         daysCount = 3, priceChange5dPercent = Fin 0\<rparr>] \<and>
   score \<lparr>symbol = ''A'', cmf = Fin (1 / 2), totalTradedValue = Fin 0, totalVolume = Fin 3000,
          daysCount = 3, priceChange5dPercent = Fin 0\<rparr> = Fin (1 / 2) \<and>
   score \<lparr>symbol = ''N'', cmf = Fin (1 / 2), totalTradedValue = Fin (- 6), totalVolume = Fin 3000,
          daysCount = 3, priceChange5dPercent = Fin 0\<rparr> = NaN \<and>
   score \<lparr>symbol = ''B'', cmf = Fin 1, totalTradedValue = Fin 0, totalVolume = Fin 3000,
          daysCount = 3, priceChange5dPercent = Fin 0\<rparr> = Fin 1 \<and>
   js_lt (Fin (1 / 2)) (Fin 1)"
proof -
  have agg: "aggregate Number_int (rev (locate odd_env 0 [])) =
     [(''A'', \<lparr>Aggregated.symbol = ''A'', sumVolume = Fin 3000, sumTradedValue = Fin 0,
              sumMFVolume = Fin 1500, firstClose = Some (Fin 105), lastClose = Some (Fin 105),
              days = 3\<rparr>),
      (''N'', \<lparr>Aggregated.symbol = ''N'', sumVolume = Fin 3000, sumTradedValue = Fin (- 6),
              sumMFVolume = Fin 1500, firstClose = Some (Fin 105), lastClose = Some (Fin 105),
              days = 3\<rparr>),
      (''B'', \<lparr>Aggregated.symbol = ''B'', sumVolume = Fin 3000, sumTradedValue = Fin 0,
              sumMFVolume = Fin 3000, firstClose = Some (Fin 110), lastClose = Some (Fin 110),
              days = 3\<rparr>)]"
    unfolding odd_locate by (simp add: aggregate_def fold_day_def row_eval)
  have "POST Number_int odd_env =
     Success 3
       [\<lparr>symbol = ''A'', cmf = Fin (1 / 2), totalTradedValue = Fin 0, totalVolume = Fin 3000,
         daysCount = 3, priceChange5dPercent = Fin 0\<rparr>,
        \<lparr>symbol = ''N'', cmf = Fin (1 / 2), totalTradedValue = Fin (- 6), totalVolume = Fin 3000,
         daysCount = 3, priceChange5dPercent = Fin 0\<rparr>,
        \<lparr>symbol = ''B'', cmf = Fin 1, totalTradedValue = Fin 0, totalVolume = Fin 3000,
         daysCount = 3, priceChange5dPercent = Fin 0\<rparr>]"
    unfolding POST_eq agg
    by (simp add: odd_locate topStocks_def results_def Map_values_def qualifies_def
          to_result_def Array_sort_def truthy_def overflow_small compareFn_def Let_def js_sub_def js_gt_def
          inf_of_sign_def)
  then show ?thesis
    by (simp add: score_def overflow_small)
qed

text \<open>
  What does hold: when the score of every result row is a finite number, the run returns
  the first 10 rows (all rows when there are at most 10) of a rearrangement of the result
  rows that is in descending order of score.
\<close>

lemma ranked_when_scores_finite:
  assumes "POST num e = Success n rows"
    and "\<forall>x \<in> set (results n (aggregate num (rev (locate e 0 [])))). isFinite (score x)"
  shows "\<exists>ranked.
           rows = take 10 ranked \<and>
           mset ranked = mset (results n (aggregate num (rev (locate e 0 [])))) \<and>
           sorted_wrt (\<lambda>x y. js_ge (score x) (score y)) ranked"
proof -
  let ?res = "results n (aggregate num (rev (locate e 0 [])))"
  let ?ranked = "Array_sort compareFn ?res"
  let ?f = "\<lambda>x. value_of (score x)"
  from POST_Success[OF assms(1)] have rows: "rows = take 10 ?ranked"
    by (simp add: topStocks_def)
  have fin: "score x = Fin (?f x)" if "x \<in> set ?res" for x
    using assms(2) that by (auto simp: isFinite_iff)
  have cmp: "js_gt (compareFn x y) (Fin 0) \<longleftrightarrow> ?f x < ?f y"
    if "x \<in> set ?res" "y \<in> set ?res" for x y
  proof -
    have "compareFn x y = overflow (?f y - ?f x)"
      unfolding compareFn_score by (subst fin[OF that(1)], subst fin[OF that(2)]) simp
    then show ?thesis by (simp add: js_gt_overflow)
  qed
  have "sorted_wrt (\<lambda>x y. ?f y \<le> ?f x) ?ranked"
    by (rule sorted_Array_sort) (rule cmp)
  then have "sorted_wrt (\<lambda>x y. js_ge (score x) (score y)) ?ranked"
  proof (rule sorted_wrt_mono_rel[rotated])
    fix x y
    assume "x \<in> set ?ranked" "y \<in> set ?ranked" "?f y \<le> ?f x"
    then have "score x = Fin (?f x)" "score y = Fin (?f y)" "?f y \<le> ?f x"
      using fin[of x] fin[of y] by (simp_all add: set_Array_sort)
    then show "js_ge (score x) (score y)"
      by (metis js_ge_Fin)
  qed
  with rows show ?thesis
    by (auto simp: mset_Array_sort)
qed

end
